theory Spec2Isabelle
  imports Complex_Main "HOL-Library.Word"
begin

section \<open>Bytes, strings and read results\<close>

text \<open>
  Go's \<open>byte\<close> is an unsigned 8-bit integer and a Go \<open>string\<close> is a sequence of bytes.
  The three row terminators and the four allow-listed delimiters are ASCII, so every
  string the detector returns is written here as the list of its bytes.
\<close>

type_synonym byte = "8 word"
type_synonym gostring = "byte list"

abbreviation LF :: byte where "LF \<equiv> 0x0A"
abbreviation CR :: byte where "CR \<equiv> 0x0D"

text \<open>
  \<open>io.Reader.Read(buf)\<close> returns the number \<open>n\<close> of bytes it stored at the front of
  \<open>buf\<close> together with an error, which is \<open>nil\<close>, \<open>io.EOF\<close> or some other error.
  A read result is the pair of the \<open>n\<close> bytes stored and the error (\<open>None\<close> for \<open>nil\<close>).
\<close>

datatype error = EOF | ReadFailure

type_synonym read_result = "byte list \<times> error option"

section \<open>Row terminator detection\<close>

text \<open>
  \<open>bytes.Index(s, sep)\<close> of the Go standard library: the index of the first instance of
  \<open>sep\<close> in \<open>s\<close>, or \<open>-1\<close> when \<open>sep\<close> does not occur in \<open>s\<close>.
\<close>

fun index_from :: "int \<Rightarrow> byte list \<Rightarrow> byte list \<Rightarrow> int" where
  "index_from i [] sep = (if sep = [] then i else - 1)"
| "index_from i (x # t) sep =
     (if take (length sep) (x # t) = sep then i else index_from (i + 1) t sep)"

definition Index :: "byte list \<Rightarrow> byte list \<Rightarrow> int" where
  "Index s sep = index_from 0 s sep"

text \<open>
  \<open>DetectRowTerminator(reader)\<close>. The buffer of \<open>128 * 1024\<close> zero bytes receives the
  result of the single \<open>reader.Read(buf)\<close>; the search runs over the whole buffer, the
  bytes read followed by the zero bytes that were not overwritten. Both error branches
  of the source return the empty string.
\<close>

definition DetectRowTerminator :: "read_result \<Rightarrow> gostring" where
  "DetectRowTerminator r =
     (let KB = 1024;
          (bytes_read, err) = r;
          buf = bytes_read @ replicate (128 * KB - length bytes_read) 0
      in case err of
           Some e \<Rightarrow> (if e = EOF then [] else [])
         | None \<Rightarrow>
             if Index buf [CR, LF] \<noteq> - 1 then [CR, LF]
             else if Index buf [CR] \<noteq> - 1 then [CR]
             else [LF])"

text \<open>
  The first \<open>Read\<close> of an in-memory reader (\<open>bytes.Reader\<close>, \<open>strings.Reader\<close>,
  \<open>bytes.Buffer\<close>) over the given content: \<open>io.EOF\<close> with no bytes when the content is
  empty, otherwise as many bytes as fit into the buffer and a \<open>nil\<close> error.
\<close>

definition first_read :: "nat \<Rightarrow> byte list \<Rightarrow> read_result" where
  "first_read n content =
     (if content = [] then ([], Some EOF) else (take n content, None))"

definition terminated_lines :: "gostring \<Rightarrow> byte list list \<Rightarrow> byte list" where
  "terminated_lines terminator lines = concat (map (\<lambda>l. l @ terminator) lines)"

section \<open>The dialect builder\<close>

text \<open>
  \<open>DialectBuilder.Dialect()\<close> looks at its three option strings only through
  \<open>utf8.RuneCountInString\<close> and \<open>strings.Reader.ReadRune\<close>, which both see a string as
  the sequence of runes that its UTF-8 decoding yields. An option string is therefore
  modelled as that sequence of runes; a rune is Go's \<open>int32\<close> code point.
\<close>

type_synonym rune = int

definition RuneCountInString :: "rune list \<Rightarrow> int" where
  "RuneCountInString s = int (length s)"

text \<open>
  \<open>ReadRune\<close> on a fresh reader returns the first rune, or the zero rune together with
  \<open>io.EOF\<close> on the empty string. \<open>Dialect()\<close> discards everything but the rune.
\<close>

definition ReadRune :: "rune list \<Rightarrow> rune" where
  "ReadRune s = (case s of [] \<Rightarrow> 0 | r # _ \<Rightarrow> r)"

text \<open>
  The builder holds the three option strings and an optional flag set; of a flag set
  only \<open>Parsed()\<close> is read, so \<open>flagSet\<close> is \<open>None\<close> for \<open>nil\<close> and otherwise holds
  that flag.
\<close>

record DialectBuilder =
  quoteCharString :: "rune list"
  escapeCharString :: "rune list"
  delimiterCharString :: "rune list"
  flagSet :: "bool option"

text \<open>
  \<open>csv.Dialect\<close> is declared in the root package; the builder fills these four fields.
  The type of \<open>DoubleQuote\<close> and the constant \<open>csv.NoDoubleQuote\<close> are parameters.
\<close>

record 'dq Dialect =
  Delimiter :: rune
  QuoteChar :: rune
  EscapeChar :: rune
  DoubleQuote :: 'dq

text \<open>
  The guard that opens \<open>Dialect()\<close>: a builder made from a flag set asks that flag set
  whether it was parsed, a builder made from the command line asks the process-wide
  \<open>flag.Parsed()\<close>, which is the first argument here.
\<close>

definition not_parsed :: "bool \<Rightarrow> DialectBuilder \<Rightarrow> bool" where
  "not_parsed flag_Parsed p =
     (case flagSet p of Some flagSet_Parsed \<Rightarrow> \<not> flagSet_Parsed | None \<Rightarrow> \<not> flag_Parsed)"

text \<open>
  \<open>Dialect()\<close>. An error is its message (\<open>Inl\<close>); otherwise the dialect is returned
  (\<open>Inr\<close>).
\<close>

definition Dialect :: "bool \<Rightarrow> 'dq \<Rightarrow> DialectBuilder \<Rightarrow> string + 'dq Dialect" where
  "Dialect flag_Parsed NoDoubleQuote p =
     (if not_parsed flag_Parsed p then
        Inl ''FlagSet has not been parsed before calling this function.''
      else if RuneCountInString (quoteCharString p) > 1 then
        Inl ''-fields-optionally-enclosed-by can't be more than one character.''
      else if RuneCountInString (escapeCharString p) > 1 then
        Inl ''-fields-escaped-by can't be more than one character.''
      else if RuneCountInString (quoteCharString p) < 1 then
        Inl ''-fields-optionally-enclosed-by can't be an empty string.''
      else if RuneCountInString (escapeCharString p) < 1 then
        Inl ''-fields-escaped-by can't be an empty string.''
      else
        let quoteChar = ReadRune (quoteCharString p);
            escapeChar = ReadRune (escapeCharString p);
            delimiterChar = ReadRune (delimiterCharString p)
        in Inr \<lparr>Delimiter = delimiterChar, QuoteChar = quoteChar,
                 EscapeChar = escapeChar, DoubleQuote = NoDoubleQuote\<rparr>)"

section \<open>The delimiter detector\<close>

subsection \<open>The frequency table\<close>

text \<open>
  \<open>frequencyTable\<close> is \<open>map[byte]map[int]int\<close>: for each recorded character, the number
  of its occurrences on each line. Go's \<open>int\<close> has 64 bits; it is modelled by \<open>int\<close>,
  since no count or line number can reach \<open>2 ^ 63\<close> on a stream that can be read.
\<close>

type_synonym frequencyTable = "byte \<rightharpoonup> (int \<rightharpoonup> int)"

definition createFrequencyTable :: frequencyTable where
  "createFrequencyTable = Map.empty"

definition increment :: "frequencyTable \<Rightarrow> byte \<Rightarrow> int \<Rightarrow> frequencyTable" where
  "increment f char line =
     (let f1 = (case f char of None \<Rightarrow> f(char \<mapsto> Map.empty) | Some _ \<Rightarrow> f);
          row = (case f1 char of None \<Rightarrow> Map.empty | Some m \<Rightarrow> m);
          row1 = (case row line of None \<Rightarrow> row(line \<mapsto> 0) | Some _ \<Rightarrow> row);
          count = (case row1 line of None \<Rightarrow> 0 | Some v \<Rightarrow> v)
      in f1(char \<mapsto> row1(line \<mapsto> count + 1)))"

subsection \<open>The sampler\<close>

text \<open>
  \<open>nonDelimiterRegex\<close> is \<open>[[:alnum:]\n\r]\<close> and is matched against \<open>string(current)\<close>.
  The class \<open>[:alnum:]\<close> of Go's regular expressions is ASCII only, and the conversion
  of a byte of \<open>0x80\<close> or more yields the two-byte encoding of a code point outside
  ASCII, so the match succeeds exactly on the ASCII digits and letters, linefeed and
  carriage-return.
\<close>

definition nonDelimiterRegex_MatchString :: "byte \<Rightarrow> bool" where
  "nonDelimiterRegex_MatchString c \<longleftrightarrow>
     (0x30 \<le> c \<and> c \<le> 0x39) \<or> (0x41 \<le> c \<and> c \<le> 0x5A) \<or> (0x61 \<le> c \<and> c \<le> 0x7A) \<or>
     c = LF \<or> c = CR"

text \<open>The variables of \<open>sample\<close> that live across the bytes and the reads.\<close>

record sampler =
  frequencies :: frequencyTable
  enclosed :: bool
  actualSampleLines :: int

text \<open>
  One pass through the body of the inner \<open>for\<close> loop, for the byte \<open>current\<close> with its
  neighbours \<open>prev\<close> and \<open>next\<close>. Besides the new state it says how the loop goes on:
  with the next byte (\<open>Continue\<close>), with the byte after the next because the body
  ran \<open>i++\<close> (\<open>Skip\<close>), or not at all because the body ran \<open>break\<close> (\<open>Break\<close>).
\<close>

datatype control = Continue | Skip | Break

definition body :: "int \<Rightarrow> byte \<Rightarrow> byte \<Rightarrow> byte \<Rightarrow> byte \<Rightarrow> sampler \<Rightarrow> control \<times> sampler" where
  "body sampleLines enclosure prev current next s =
     (if current = enclosure then
        (if \<not> enclosed s \<or> next \<noteq> enclosure then
           (if enclosed s then (Continue, s\<lparr>enclosed := False\<rparr>)
            else (Continue, s\<lparr>enclosed := True\<rparr>))
         else (Skip, s))
      else if (current = LF \<and> prev \<noteq> CR \<or> current = CR) \<and> \<not> enclosed s then
        (let s' = s\<lparr>actualSampleLines := actualSampleLines s + 1\<rparr>
         in if actualSampleLines s' \<ge> sampleLines then (Break, s') else (Continue, s'))
      else if \<not> enclosed s then
        (if \<not> nonDelimiterRegex_MatchString current then
           (Continue, s\<lparr>frequencies := increment (frequencies s) current (actualSampleLines s)\<rparr>)
         else (Continue, s))
      else (Continue, s))"

text \<open>
  The inner loop \<open>for i := 0; i < n; i++\<close> over the \<open>n\<close> bytes of one read, from a
  position \<open>i\<close> on: the second argument is \<open>buf[i-1]\<close>, or the zero byte at \<open>i = 0\<close>, and
  the list holds \<open>buf[i]\<close>, \<dots>, \<open>buf[n-1]\<close>. The lookahead \<open>next\<close> is \<open>buf[i+1]\<close>, or the
  zero byte at \<open>i = n - 1\<close>.
\<close>

fun scan :: "int \<Rightarrow> byte \<Rightarrow> byte \<Rightarrow> byte list \<Rightarrow> sampler \<Rightarrow> sampler" where
  "scan sampleLines enclosure prev [] s = s"
| "scan sampleLines enclosure prev [current] s =
     snd (body sampleLines enclosure prev current 0 s)"
| "scan sampleLines enclosure prev (current # next # rest) s =
     (case body sampleLines enclosure prev current next s of
        (Continue, s') \<Rightarrow> scan sampleLines enclosure current (next # rest) s'
      | (Skip, s') \<Rightarrow> scan sampleLines enclosure next rest s'
      | (Break, s') \<Rightarrow> s')"

text \<open>
  The outer loop \<open>for err == nil\<close>: the list holds the results of the successive calls
  \<open>bufferedReader.Read(buf)\<close> that returned a \<open>nil\<close> error, each the bytes that the call
  stored in \<open>buf\<close>; the loop ends at the first call that reports an error, \<open>io.EOF\<close> or
  any other. A \<open>break\<close> of the inner loop does not end this loop.
\<close>

fun read_loop :: "int \<Rightarrow> byte \<Rightarrow> byte list list \<Rightarrow> sampler \<Rightarrow> sampler" where
  "read_loop sampleLines enclosure [] s = s"
| "read_loop sampleLines enclosure (buf # reads) s =
     read_loop sampleLines enclosure reads (scan sampleLines enclosure 0 buf s)"

definition sample :: "byte list list \<Rightarrow> int \<Rightarrow> byte \<Rightarrow> frequencyTable \<times> int" where
  "sample reads sampleLines enclosure =
     (let s = read_loop sampleLines enclosure reads
                \<lparr>frequencies = createFrequencyTable, enclosed = False, actualSampleLines = 1\<rparr>
      in (frequencies s, actualSampleLines s))"

text \<open>
  What \<open>bufio.Reader.Read\<close> delivers to the sampler when the stream is an in-memory
  reader over the given content: the buffered reader fills its 4096-byte buffer from the
  stream whenever the buffer is empty, and each call hands out at most the 1024 bytes
  that fit into \<open>buf\<close>.
\<close>

fun chop :: "nat \<Rightarrow> byte list \<Rightarrow> byte list list" where
  "chop n xs = (if n = 0 \<or> xs = [] then [] else take n xs # chop n (drop n xs))"

declare chop.simps [simp del]

definition buffered_reads :: "byte list \<Rightarrow> byte list list" where
  "buffered_reads content = concat (map (chop 1024) (chop 4096 content))"

text \<open>
  A stream need not end. In general the calls \<open>bufferedReader.Read(buf)\<close> form a
  sequence without end: the call number \<open>k\<close> either stores bytes in \<open>buf\<close> and returns a
  \<open>nil\<close> error (\<open>Some\<close> of the bytes) or reports an error (\<open>None\<close>). On such a stream
  the outer loop of \<open>sample\<close> returns when a call reports an error, and does not return
  (\<open>None\<close>) when no call ever does. On a stream that reports an error after finitely
  many reads this is \<open>read_loop\<close> on these reads, which is proved below; the claims
  are stated for \<open>read_loop\<close>.
\<close>

type_synonym stream = "nat \<Rightarrow> byte list option"

partial_function (option) read_stream ::
  "int \<Rightarrow> byte \<Rightarrow> stream \<Rightarrow> nat \<Rightarrow> sampler \<Rightarrow> sampler option" where
  "read_stream sampleLines enclosure reader k s =
     (case reader k of
        None \<Rightarrow> Some s
      | Some buf \<Rightarrow>
          read_stream sampleLines enclosure reader (Suc k) (scan sampleLines enclosure 0 buf s))"

definition sample_stream :: "stream \<Rightarrow> int \<Rightarrow> byte \<Rightarrow> (frequencyTable \<times> int) option" where
  "sample_stream reader sampleLines enclosure =
     map_option (\<lambda>s. (frequencies s, actualSampleLines s))
       (read_stream sampleLines enclosure reader 0
          \<lparr>frequencies = createFrequencyTable, enclosed = False, actualSampleLines = 1\<rparr>)"

text \<open>The stream that delivers the given reads and then reports an error.\<close>

definition stream_of :: "byte list list \<Rightarrow> stream" where
  "stream_of reads k = (if k < length reads then Some (reads ! k) else None)"

text \<open>
  Every count that a frequency table holds is at least one: a line is entered for a
  character when the character is first recorded on it.
\<close>

definition positive_counts :: "frequencyTable \<Rightarrow> bool" where
  "positive_counts f \<longleftrightarrow> (\<forall>c m i v. f c = Some m \<longrightarrow> m i = Some v \<longrightarrow> 1 \<le> v)"

subsection \<open>Lines of a stream\<close>

text \<open>
  The bytes of a text that stand outside quotes, in the reading of the specification:
  an enclosure character opens or closes a quoted part, so that a byte is outside quotes
  when an even number of enclosure characters precedes it; a doubled enclosure
  character inside a quoted part closes and reopens it. The first argument says whether
  the text starts inside a quoted part.
\<close>

fun outside_from :: "bool \<Rightarrow> byte \<Rightarrow> byte list \<Rightarrow> byte list" where
  "outside_from q e [] = []"
| "outside_from q e (x # xs) =
     (if x = e then outside_from (\<not> q) e xs
      else if q then outside_from q e xs
      else x # outside_from q e xs)"

definition outside :: "byte \<Rightarrow> byte list \<Rightarrow> byte list" where
  "outside e xs = outside_from False e xs"

text \<open>
  A line in that reading: its quoted parts are closed, and it holds no linefeed and no
  carriage-return outside quotes.
\<close>

definition sampled_line :: "byte \<Rightarrow> byte list \<Rightarrow> bool" where
  "sampled_line e l \<longleftrightarrow>
     even (count_list l e) \<and> LF \<notin> set (outside e l) \<and> CR \<notin> set (outside e l)"

text \<open>
  What the loop body does with a byte when lookahead and lookbehind play no part: an
  enclosure character toggles the state, a linefeed or carriage-return outside an
  enclosure counts a line, any other byte outside an enclosure is recorded unless the
  regular expression matches it. The proofs show where the inner loop is the iteration
  of this step.
\<close>

definition feed :: "byte \<Rightarrow> byte \<Rightarrow> sampler \<Rightarrow> sampler" where
  "feed e x s =
     (if x = e then s\<lparr>enclosed := \<not> enclosed s\<rparr>
      else if enclosed s then s
      else if x = LF \<or> x = CR then s\<lparr>actualSampleLines := actualSampleLines s + 1\<rparr>
      else if nonDelimiterRegex_MatchString x then s
      else s\<lparr>frequencies := increment (frequencies s) x (actualSampleLines s)\<rparr>)"

text \<open>
  The number of occurrences of a character on a line that a frequency table holds, zero
  for a character or a line that the table does not have.
\<close>

definition tab :: "frequencyTable \<Rightarrow> byte \<Rightarrow> int \<Rightarrow> int" where
  "tab f c i = (case f c of None \<Rightarrow> 0 | Some row \<Rightarrow> (case row i of None \<Rightarrow> 0 | Some v \<Rightarrow> v))"

subsection \<open>Floating-point arithmetic\<close>

text \<open>
  \<open>analyze\<close> computes in \<open>float32\<close> and \<open>float64\<close>. A floating-point value is either a
  finite number, kept as the real number it denotes (the two zeros are one value, as
  they are for \<open>==\<close>), or not finite: a NaN or an infinity. Every operation rounds its
  exact result to the nearest number of the format's precision (24 bits for
  \<open>float32\<close>, 53 bits for \<open>float64\<close>), ties going to the even significand. The exponent
  range is not bounded: with counts below \<open>2 ^ 63\<close> no operation of \<open>analyze\<close> overflows,
  and none turns a non-zero result into zero.
\<close>

datatype flt = Finite real | NotFinite

definition round_even :: "real \<Rightarrow> int" where
  "round_even r =
     (let f = \<lfloor>r\<rfloor>; d = r - of_int f
      in if d < 1 / 2 then f else if 1 / 2 < d then f + 1 else if even f then f else f + 1)"

definition rnd :: "nat \<Rightarrow> real \<Rightarrow> real" where
  "rnd p x =
     (if x = 0 then 0
      else let u = 2 powr of_int (\<lfloor>log 2 \<bar>x\<bar>\<rfloor> + 1 - int p)
           in u * of_int (round_even (x / u)))"

text \<open>The conversions \<open>float32(v)\<close> and \<open>float64(v)\<close> of an \<open>int\<close>.\<close>

definition float32 :: "int \<Rightarrow> flt" where
  "float32 v = Finite (rnd 24 (of_int v))"

definition float64 :: "int \<Rightarrow> flt" where
  "float64 v = Finite (rnd 53 (of_int v))"

text \<open>
  Division, subtraction, multiplication, addition and \<open>math.Sqrt\<close> at precision \<open>p\<close>.
  A division by zero yields a NaN or an infinity. The operations below are applied by
  \<open>analyze\<close> in such a way that an operand that is not finite makes the result not
  finite.
\<close>

fun fdiv :: "nat \<Rightarrow> flt \<Rightarrow> flt \<Rightarrow> flt" where
  "fdiv p (Finite a) (Finite b) = (if b = 0 then NotFinite else Finite (rnd p (a / b)))"
| "fdiv p _ _ = NotFinite"

fun fsub :: "nat \<Rightarrow> flt \<Rightarrow> flt \<Rightarrow> flt" where
  "fsub p (Finite a) (Finite b) = Finite (rnd p (a - b))"
| "fsub p _ _ = NotFinite"

fun fmul :: "nat \<Rightarrow> flt \<Rightarrow> flt \<Rightarrow> flt" where
  "fmul p (Finite a) (Finite b) = Finite (rnd p (a * b))"
| "fmul p _ _ = NotFinite"

fun fadd :: "nat \<Rightarrow> flt \<Rightarrow> flt \<Rightarrow> flt" where
  "fadd p (Finite a) (Finite b) = Finite (rnd p (a + b))"
| "fadd p _ _ = NotFinite"

fun fsqrt :: "nat \<Rightarrow> flt \<Rightarrow> flt" where
  "fsqrt p (Finite a) = (if a < 0 then NotFinite else Finite (rnd p (sqrt a)))"
| "fsqrt p NotFinite = NotFinite"

text \<open>The comparison \<open>==\<close>: false as soon as one side is a NaN.\<close>

fun feq :: "flt \<Rightarrow> flt \<Rightarrow> bool" where
  "feq (Finite a) (Finite b) \<longleftrightarrow> a = b"
| "feq _ _ \<longleftrightarrow> False"

subsection \<open>The analyzer\<close>

text \<open>The closure \<open>mean\<close> of \<open>analyze\<close>.\<close>

definition mean :: "(int \<rightharpoonup> int) \<Rightarrow> int \<Rightarrow> flt" where
  "mean frequencyOfLine size' =
     (let total = fold (\<lambda>i total. case frequencyOfLine i of
                                    Some frequency \<Rightarrow> total + frequency
                                  | None \<Rightarrow> total) [1..size'] 0
      in fdiv 24 (float32 total) (float32 size'))"

text \<open>
  The closure \<open>deviation\<close> of \<open>analyze\<close>. The conversion \<open>float64(d)\<close> of a \<open>float32\<close>
  is exact.
\<close>

definition deviation :: "(int \<rightharpoonup> int) \<Rightarrow> int \<Rightarrow> flt" where
  "deviation frequencyOfLine size' =
     (let average = mean frequencyOfLine size';
          total = fold (\<lambda>i total.
                    let frequency = (case frequencyOfLine i of
                                       Some v \<Rightarrow> float32 v
                                     | None \<Rightarrow> Finite 0);
                        d = fmul 24 (fsub 24 average frequency) (fsub 24 average frequency)
                    in fadd 53 total (fsqrt 53 d)) [1..size'] (Finite 0)
      in fdiv 53 total (float64 size'))"

text \<open>
  \<open>analyze\<close>. The loop \<open>for delimiter, frequencyOfLine := range ft\<close> visits every key of
  the table once, in an order that Go leaves unspecified and that differs from one run
  to the next. The order of the visit is the first argument; \<open>range_order\<close> says that a
  list is such an order for a table.
\<close>

definition range_order :: "frequencyTable \<Rightarrow> byte list \<Rightarrow> bool" where
  "range_order ft order \<longleftrightarrow> distinct order \<and> set order = dom ft"

definition analyze :: "byte list \<Rightarrow> frequencyTable \<Rightarrow> int \<Rightarrow> byte list" where
  "analyze order ft sampleLine =
     filter (\<lambda>delimiter. case ft delimiter of
                            Some frequencyOfLine \<Rightarrow>
                              feq (Finite 0.0) (deviation frequencyOfLine sampleLine)
                          | None \<Rightarrow> False) order"

subsection \<open>The delimiters\<close>

fun validDelimiter_loop :: "byte \<Rightarrow> byte list \<Rightarrow> bool" where
  "validDelimiter_loop char [] = False"
| "validDelimiter_loop char (delimiter # rest) =
     (if char = delimiter then True else validDelimiter_loop char rest)"

definition validDelimiter :: "byte \<Rightarrow> bool" where
  "validDelimiter char =
     (let possibleDelimiters = [0x2C, 0x7C, 0x09, 0x3B]
      in validDelimiter_loop char possibleDelimiters)"

text \<open>
  The conversion \<open>string(delimiter)\<close> of a byte: the UTF-8 encoding of the code point
  of that number, one byte below \<open>0x80\<close> and two bytes from there on.
\<close>

definition string_of_byte :: "byte \<Rightarrow> gostring" where
  "string_of_byte b =
     (if b < 0x80 then [b] else [or 0xC0 (drop_bit 6 b), or 0x80 (and b 0x3F)])"

definition sampleLines :: int where
  "sampleLines = 15"

text \<open>
  \<open>DetectDelimiter\<close>, on the reads of the buffered reader (see \<open>read_loop\<close>) and with the
  order in which \<open>analyze\<close> visits the frequency table.
\<close>

definition DetectDelimiter :: "byte list \<Rightarrow> byte list list \<Rightarrow> byte \<Rightarrow> gostring list" where
  "DetectDelimiter order reads enclosure =
     (let (statistics, totalLines) = sample reads sampleLines enclosure
      in map string_of_byte
           (filter validDelimiter (analyze order statistics (totalLines - 1))))"

text \<open>\<open>DetectDelimiter\<close> on a stream that need not end; \<open>None\<close> when it does not return.\<close>

definition DetectDelimiter_stream :: "byte list \<Rightarrow> stream \<Rightarrow> byte \<Rightarrow> gostring list option" where
  "DetectDelimiter_stream order reader enclosure =
     map_option
       (\<lambda>(statistics, totalLines).
          map string_of_byte
            (filter validDelimiter (analyze order statistics (totalLines - 1))))
       (sample_stream reader sampleLines enclosure)"

text \<open>
  The number of occurrences that a row of the frequency table holds for a line, a
  missing line counting as zero.
\<close>

definition occurrences :: "(int \<rightharpoonup> int) \<Rightarrow> int \<Rightarrow> int" where
  "occurrences frequencyOfLine i = (case frequencyOfLine i of Some v \<Rightarrow> v | None \<Rightarrow> 0)"

text \<open>
  The summand that one line contributes to the total of \<open>deviation\<close>, for a finite
  average \<open>avg\<close> and \<open>v\<close> occurrences on that line.
\<close>

definition dev_term :: "real \<Rightarrow> int \<Rightarrow> real" where
  "dev_term avg v =
     rnd 53 (sqrt (rnd 24 (rnd 24 (avg - rnd 24 (of_int v)) * rnd 24 (avg - rnd 24 (of_int v)))))"

section \<open>Row terminator detection: proofs\<close>

subsection \<open>Facts about the search\<close>

lemma index_from_found_iff:
  "0 \<le> i \<Longrightarrow> sep \<noteq> [] \<Longrightarrow>
     index_from i s sep \<noteq> - 1 \<longleftrightarrow> (\<exists>ys zs. s = ys @ sep @ zs)"
proof (induction s arbitrary: i)
  case Nil
  then show ?case by simp
next
  case (Cons x t)
  show ?case
  proof (cases "take (length sep) (x # t) = sep")
    case True
    then have "x # t = [] @ sep @ drop (length sep) (x # t)"
      by (metis append_Nil append_take_drop_id)
    then have "\<exists>ys zs. x # t = ys @ sep @ zs" by blast
    moreover from True Cons.prems have "index_from i (x # t) sep \<noteq> - 1" by simp
    ultimately show ?thesis by simp
  next
    case False
    have step: "index_from i (x # t) sep = index_from (i + 1) t sep"
      using False by simp
    have "(\<exists>ys zs. x # t = ys @ sep @ zs) \<longleftrightarrow> (\<exists>ys zs. t = ys @ sep @ zs)"
    proof
      assume "\<exists>ys zs. x # t = ys @ sep @ zs"
      then obtain ys zs where eq: "x # t = ys @ sep @ zs" by blast
      show "\<exists>ys zs. t = ys @ sep @ zs"
      proof (cases ys)
        case Nil
        with eq have "take (length sep) (x # t) = sep" by simp
        with False show ?thesis by simp
      next
        case (Cons y ys')
        with eq have "t = ys' @ sep @ zs" by simp
        then show ?thesis by blast
      qed
    next
      assume "\<exists>ys zs. t = ys @ sep @ zs"
      then obtain ys zs where "t = ys @ sep @ zs" by blast
      then have "x # t = (x # ys) @ sep @ zs" by simp
      then show "\<exists>ys zs. x # t = ys @ sep @ zs" by blast
    qed
    with Cons.IH [of "i + 1"] Cons.prems step show ?thesis by simp
  qed
qed

lemma Index_found_iff:
  "sep \<noteq> [] \<Longrightarrow> Index s sep \<noteq> - 1 \<longleftrightarrow> (\<exists>ys zs. s = ys @ sep @ zs)"
  unfolding Index_def by (rule index_from_found_iff) simp_all

lemma occurs_in_padding:
  assumes "0 \<notin> set sep" and "sep \<noteq> []"
  shows "(\<exists>ys zs. data @ replicate k (0::byte) = ys @ sep @ zs) \<longleftrightarrow>
         (\<exists>ys zs. data = ys @ sep @ zs)"
proof
  assume "\<exists>ys zs. data = ys @ sep @ zs"
  then obtain ys zs where "data = ys @ sep @ zs" by blast
  then have "data @ replicate k 0 = ys @ sep @ (zs @ replicate k 0)" by simp
  then show "\<exists>ys zs. data @ replicate k 0 = ys @ sep @ zs" by blast
next
  assume "\<exists>ys zs. data @ replicate k 0 = ys @ sep @ zs"
  then obtain ys zs where eq: "data @ replicate k 0 = ys @ sep @ zs" by blast
  have "length ys + length sep \<le> length data"
  proof (rule ccontr)
    assume "\<not> length ys + length sep \<le> length data"
    then have lt: "length data < length ys + length sep" by simp
    define j where "j = length ys + length sep - 1"
    from assms(2) have sep_pos: "0 < length sep" by simp
    have j_ge: "length data \<le> j" using lt by (simp add: j_def)
    have "length (data @ replicate k 0) = length (ys @ sep @ zs)"
      using eq by simp
    then have "length data + k = length ys + length sep + length zs"
      by simp
    with sep_pos have "j < length data + k"
      unfolding j_def by linarith
    then have j_lt: "j < length (data @ replicate k 0)"
      by simp
    have "(data @ replicate k 0) ! j = 0"
      using j_ge j_lt by (simp add: nth_append)
    moreover have "(ys @ sep @ zs) ! j = sep ! (length sep - 1)"
    proof -
      have "j = length ys + (length sep - 1)"
        using sep_pos unfolding j_def by linarith
      then have "(ys @ sep @ zs) ! j = (sep @ zs) ! (length sep - 1)"
        by (simp only: nth_append_length_plus)
      also have "\<dots> = sep ! (length sep - 1)"
        using sep_pos by (simp add: nth_append del: length_greater_0_conv)
      finally show ?thesis .
    qed
    ultimately have "sep ! (length sep - 1) = 0" using eq by simp
    moreover have "sep ! (length sep - 1) \<in> set sep" using sep_pos by simp
    ultimately show False using assms(1) by simp
  qed
  then have "take (length ys + length sep) (data @ replicate k 0) =
             take (length ys + length sep) data" by simp
  moreover have "take (length ys + length sep) (ys @ sep @ zs) = ys @ sep" by simp
  ultimately have "take (length ys + length sep) data = ys @ sep" using eq by simp
  then have "data = ys @ sep @ drop (length ys + length sep) data"
    by (metis append_assoc append_take_drop_id)
  then show "\<exists>ys zs. data = ys @ sep @ zs" by blast
qed

lemma DetectRowTerminator_ok:
  "DetectRowTerminator (data, None) =
     (if \<exists>ys zs. data = ys @ [CR, LF] @ zs then [CR, LF]
      else if CR \<in> set data then [CR] else [LF])"
proof -
  have crlf: "Index (data @ replicate k 0) [CR, LF] \<noteq> - 1 \<longleftrightarrow>
        (\<exists>ys zs. data = ys @ [CR, LF] @ zs)" for k
    using Index_found_iff [of "[CR, LF]" "data @ replicate k 0"]
      occurs_in_padding [of "[CR, LF]" data k] by simp
  have cr: "Index (data @ replicate k 0) [CR] \<noteq> - 1 \<longleftrightarrow> CR \<in> set data" for k
  proof -
    have "Index (data @ replicate k 0) [CR] \<noteq> - 1 \<longleftrightarrow> (\<exists>ys zs. data = ys @ [CR] @ zs)"
      using Index_found_iff [of "[CR]" "data @ replicate k 0"]
        occurs_in_padding [of "[CR]" data k] by simp
    also have "\<dots> \<longleftrightarrow> CR \<in> set data"
      by (simp add: in_set_conv_decomp)
    finally show ?thesis .
  qed
  show ?thesis
    unfolding DetectRowTerminator_def Let_def
    using crlf cr by simp
qed

lemma DetectRowTerminator_err: "DetectRowTerminator (data, Some e) = []"
  by (simp add: DetectRowTerminator_def)

lemma terminated_lines_Cons:
  "terminated_lines t (l # ls) = l @ t @ terminated_lines t ls"
  by (simp add: terminated_lines_def)

lemma first_terminator_in_chunk:
  assumes "ls \<noteq> []" and "length (hd ls) + length t \<le> n"
  shows "\<exists>ys zs. take n (terminated_lines t ls) = ys @ t @ zs"
proof -
  from assms(1) obtain l rest where ls: "ls = l # rest" by (cases ls) auto
  with assms(2) have "length l + length t \<le> n" by simp
  then have "take n (terminated_lines t ls) =
             l @ t @ take (n - (length l + length t)) (terminated_lines t rest)"
    by (simp add: ls terminated_lines_Cons)
  then show ?thesis by blast
qed

lemma set_terminated_lines:
  "set (terminated_lines t ls) \<subseteq> set t \<union> (\<Union>l \<in> set ls. set l)"
  by (auto simp: terminated_lines_def)

lemma linefeed_lines_no_CR:
  assumes "\<forall>l \<in> set ls. CR \<notin> set l"
  shows "CR \<notin> set (take n (terminated_lines [LF] ls))"
proof
  assume "CR \<in> set (take n (terminated_lines [LF] ls))"
  then have "CR \<in> set (terminated_lines [LF] ls)" by (rule in_set_takeD)
  with set_terminated_lines [of "[LF]" ls] have "CR \<in> set [LF] \<union> (\<Union>l \<in> set ls. set l)"
    by blast
  with assms show False by simp
qed

subsection \<open>Claims about the row terminator\<close>

text \<open>
  C2 (as the code has it). \<open>DetectRowTerminator\<close> never fails and returns one of four
  strings: the empty string whenever the initial read reports an error, be it end of
  input (as on the empty stream) or any other error, and otherwise exactly one of
  \<open>"\r\n"\<close>, \<open>"\r"\<close> and \<open>"\n"\<close>.
\<close>

theorem DetectRowTerminator_results:
  "DetectRowTerminator (data, Some e) = [] \<and>
   DetectRowTerminator (first_read (128 * 1024) []) = [] \<and>
   DetectRowTerminator (data, None) \<in> {[CR, LF], [CR], [LF]}"
  by (simp add: DetectRowTerminator_err DetectRowTerminator_ok first_read_def)

theorem DetectRowTerminator_results_witness:
  "DetectRowTerminator ([0x61, LF], Some ReadFailure) = [] \<and>
   DetectRowTerminator (first_read (128 * 1024) []) = [] \<and>
   DetectRowTerminator ([0x61, LF], None) \<in> {[CR, LF], [CR], [LF]}"
  by (rule DetectRowTerminator_results [of "[0x61, LF]" ReadFailure])

text \<open>
  C2 as the specification states it fails: on the empty stream the first read reports
  end of input and the result is the empty string, which is none of the three
  terminators and in particular not the linefeed default.
\<close>

theorem DetectRowTerminator_empty_stream_counterexample:
  "DetectRowTerminator (first_read (128 * 1024) []) \<notin> {[CR, LF], [CR], [LF]}"
  by (simp add: DetectRowTerminator_err first_read_def)

text \<open>
  C8. When the single read succeeds, the result follows a strict priority: \<open>"\r\n"\<close> if
  the bytes read contain carriage-return followed by linefeed anywhere, otherwise
  \<open>"\r"\<close> if they contain a carriage-return, otherwise \<open>"\n"\<close>. Consequently a stream of
  five lines each ending in \<open>"\r\n"\<close> (the first line ending inside the 128 KiB chunk)
  yields \<open>"\r\n"\<close>, and a stream of five lines without carriage-returns each ending in
  \<open>"\n"\<close> yields \<open>"\n"\<close>.
\<close>

theorem DetectRowTerminator_priority:
  "DetectRowTerminator (data, None) =
     (if \<exists>ys zs. data = ys @ [CR, LF] @ zs then [CR, LF]
      else if CR \<in> set data then [CR] else [LF]) \<and>
   (length ls = 5 \<and> length (hd ls) + 2 \<le> 128 * 1024 \<longrightarrow>
      DetectRowTerminator (first_read (128 * 1024) (terminated_lines [CR, LF] ls)) = [CR, LF]) \<and>
   (length ls = 5 \<and> (\<forall>l \<in> set ls. CR \<notin> set l) \<longrightarrow>
      DetectRowTerminator (first_read (128 * 1024) (terminated_lines [LF] ls)) = [LF])"
proof (intro conjI impI)
  show "DetectRowTerminator (data, None) =
     (if \<exists>ys zs. data = ys @ [CR, LF] @ zs then [CR, LF]
      else if CR \<in> set data then [CR] else [LF])"
    by (rule DetectRowTerminator_ok)
next
  assume a: "length ls = 5 \<and> length (hd ls) + 2 \<le> 128 * 1024"
  then have ne: "ls \<noteq> []" by auto
  then have stream: "terminated_lines [CR, LF] ls \<noteq> []"
    by (cases ls) (simp_all add: terminated_lines_Cons)
  from a have "length (hd ls) + length [CR, LF] \<le> 128 * 1024" by simp
  from first_terminator_in_chunk [OF ne this]
  have "\<exists>ys zs. take (128 * 1024) (terminated_lines [CR, LF] ls) = ys @ [CR, LF] @ zs" .
  with stream
  show "DetectRowTerminator (first_read (128 * 1024) (terminated_lines [CR, LF] ls)) = [CR, LF]"
    by (simp only: first_read_def DetectRowTerminator_ok if_False if_True)
next
  assume a: "length ls = 5 \<and> (\<forall>l \<in> set ls. CR \<notin> set l)"
  then have ne: "ls \<noteq> []" by auto
  then have stream: "terminated_lines [LF] ls \<noteq> []"
    by (cases ls) (simp_all add: terminated_lines_Cons)
  from a have noCR: "CR \<notin> set (take (128 * 1024) (terminated_lines [LF] ls))"
    by (intro linefeed_lines_no_CR) simp
  then have "\<not> (\<exists>ys zs. take (128 * 1024) (terminated_lines [LF] ls) = ys @ [CR, LF] @ zs)"
    by (metis append_Cons in_set_conv_decomp)
  with stream noCR
  show "DetectRowTerminator (first_read (128 * 1024) (terminated_lines [LF] ls)) = [LF]"
    by (simp only: first_read_def DetectRowTerminator_ok if_False)
qed

theorem DetectRowTerminator_priority_witness:
  "DetectRowTerminator ([0x61, CR, 0x62, CR, LF], None) = [CR, LF] \<and>
   DetectRowTerminator (first_read (128 * 1024)
      (terminated_lines [CR, LF] [[0x61], [0x62], [0x63], [0x64], [0x65]])) = [CR, LF] \<and>
   DetectRowTerminator (first_read (128 * 1024)
      (terminated_lines [LF] [[0x61], [0x62], [0x63], [0x64], [0x65]])) = [LF]"
proof -
  have "[0x61, CR, 0x62, CR, LF] = [0x61, CR, 0x62] @ [CR, LF] @ ([] :: byte list)"
    by simp
  then have "\<exists>ys zs. [0x61, CR, 0x62, CR, LF] = ys @ [CR, LF] @ (zs :: byte list)"
    by blast
  then show ?thesis
    using DetectRowTerminator_priority
      [of "[0x61, CR, 0x62, CR, LF]" "[[0x61], [0x62], [0x63], [0x64], [0x65]]"]
    by simp
qed

section \<open>The dialect builder: proofs\<close>

text \<open>
  C9. The builder validates the enclosure and the escape string: an empty one or one of
  more than one character makes \<open>Dialect()\<close> return an error that names the option.
  The delimiter string is not validated: with parsed flags and one-character enclosure
  and escape strings, \<open>Dialect()\<close> returns a dialect for every delimiter string, the
  zero rune standing for an empty one and the first rune for a longer one.
\<close>

theorem Dialect_delimiter_unchecked:
  "Dialect True nd \<lparr>quoteCharString = [q], escapeCharString = [e],
      delimiterCharString = d, flagSet = None\<rparr> =
     Inr \<lparr>Delimiter = (case d of [] \<Rightarrow> 0 | r # _ \<Rightarrow> r), QuoteChar = q,
          EscapeChar = e, DoubleQuote = nd\<rparr> \<and>
   Dialect True nd \<lparr>quoteCharString = [], escapeCharString = [e],
      delimiterCharString = d, flagSet = None\<rparr> =
     Inl ''-fields-optionally-enclosed-by can't be an empty string.'' \<and>
   Dialect True nd \<lparr>quoteCharString = q # q' # qs, escapeCharString = [e],
      delimiterCharString = d, flagSet = None\<rparr> =
     Inl ''-fields-optionally-enclosed-by can't be more than one character.'' \<and>
   Dialect True nd \<lparr>quoteCharString = [q], escapeCharString = [],
      delimiterCharString = d, flagSet = None\<rparr> =
     Inl ''-fields-escaped-by can't be an empty string.'' \<and>
   Dialect True nd \<lparr>quoteCharString = [q], escapeCharString = e # e' # es,
      delimiterCharString = d, flagSet = None\<rparr> =
     Inl ''-fields-escaped-by can't be more than one character.''"
  by (simp add: Dialect_def not_parsed_def RuneCountInString_def ReadRune_def)

text \<open>
  The failing inputs: the empty delimiter string and the two-character delimiter
  string \<open>",,"\<close>, with the double quote as enclosure and the backslash as escape.
\<close>

theorem Dialect_delimiter_unchecked_witness:
  "Dialect True () \<lparr>quoteCharString = [0x22], escapeCharString = [0x5C],
      delimiterCharString = [], flagSet = None\<rparr> =
     Inr \<lparr>Delimiter = 0, QuoteChar = 0x22, EscapeChar = 0x5C, DoubleQuote = ()\<rparr> \<and>
   Dialect True () \<lparr>quoteCharString = [0x22], escapeCharString = [0x5C],
      delimiterCharString = [0x2C, 0x2C], flagSet = None\<rparr> =
     Inr \<lparr>Delimiter = 0x2C, QuoteChar = 0x22, EscapeChar = 0x5C, DoubleQuote = ()\<rparr>"
  using Dialect_delimiter_unchecked [of "()" "0x22" "0x5C" "[]"]
    Dialect_delimiter_unchecked [of "()" "0x22" "0x5C" "[0x2C, 0x2C]"]
  by simp

section \<open>The sampler: proofs\<close>



lemma scan_Cons:
  "scan sl e prev (c # rest) s =
     (case body sl e prev c (case rest of [] \<Rightarrow> 0 | n # _ \<Rightarrow> n) s of
        (Continue, s') \<Rightarrow> scan sl e c rest s'
      | (Skip, s') \<Rightarrow> scan sl e (case rest of [] \<Rightarrow> 0 | n # _ \<Rightarrow> n) (tl rest) s'
      | (Break, s') \<Rightarrow> s')"
  by (cases rest) (auto split: prod.splits control.splits)

lemma body_enclosed_other:
  "enclosed s \<Longrightarrow> current \<noteq> e \<Longrightarrow> body sl e prev current next s = (Continue, s)"
  by (simp add: body_def)

lemma body_enclosed:
  "enclosed s \<Longrightarrow>
     frequencies (snd (body sl e prev current next s)) = frequencies s \<and>
     actualSampleLines (snd (body sl e prev current next s)) = actualSampleLines s \<and>
     fst (body sl e prev current next s) \<noteq> Break"
  by (simp add: body_def)

lemma scan_enclosed_segment:
  "enclosed s \<Longrightarrow> e \<notin> set xs \<Longrightarrow>
     scan sl e prev (xs @ ys) s = scan sl e (last (prev # xs)) ys s"
proof (induction xs arbitrary: prev)
  case Nil
  then show ?case by simp
next
  case (Cons x xs)
  then have "body sl e prev x (case xs @ ys of [] \<Rightarrow> 0 | n # _ \<Rightarrow> n) s = (Continue, s)"
    by (intro body_enclosed_other) auto
  then have "scan sl e prev ((x # xs) @ ys) s = scan sl e x (xs @ ys) s"
    by (simp add: scan_Cons)
  with Cons.IH [of x] Cons.prems show ?case by simp
qed

lemma body_lines_mono:
  "actualSampleLines s \<le> actualSampleLines (snd (body sl e prev c n s))"
  by (simp add: body_def Let_def)

text \<open>
  A property of the sampler's variables that every pass through the loop body keeps is
  kept by the inner loop and by the whole sampling.
\<close>

lemma scan_invariant:
  assumes "P s"
    and "\<And>prev c n s. c \<in> set buf \<Longrightarrow> P s \<Longrightarrow> P (snd (body sl e prev c n s))"
  shows "P (scan sl e prev buf s)"
  using assms
proof (induction sl e prev buf s rule: scan.induct)
  case (1 sl e prev s)
  then show ?case by simp
next
  case (2 sl e prev c s)
  then show ?case by simp
next
  case (3 sl e prev c n rest s)
  obtain ctl s' where b: "body sl e prev c n s = (ctl, s')" by (cases "body sl e prev c n s")
  from "3.prems"(2) [of c s prev n] "3.prems"(1) b have P': "P s'" by simp
  have step: "\<And>prev c' n' s. c' \<in> set (n # rest) \<Longrightarrow> P s \<Longrightarrow> P (snd (body sl e prev c' n' s))"
    using "3.prems"(2) by simp
  show ?case
  proof (cases ctl)
    case Continue
    with "3.IH"(1) [OF b [symmetric] _ P' step] b show ?thesis by simp
  next
    case Skip
    have "\<And>prev c' n' s. c' \<in> set rest \<Longrightarrow> P s \<Longrightarrow> P (snd (body sl e prev c' n' s))"
      using "3.prems"(2) by simp
    with "3.IH"(2) [OF b [symmetric] _ P'] Skip b show ?thesis by simp
  next
    case Break
    with b P' show ?thesis by simp
  qed
qed

lemma read_loop_invariant:
  assumes "P s"
    and "\<And>prev c n s. c \<in> \<Union> (set ` set reads) \<Longrightarrow> P s \<Longrightarrow> P (snd (body sl e prev c n s))"
  shows "P (read_loop sl e reads s)"
  using assms
proof (induction reads arbitrary: s)
  case Nil
  then show ?case by simp
next
  case (Cons buf reads)
  have "P (scan sl e 0 buf s)"
  proof (rule scan_invariant [where P = P])
    show "P s" by (rule Cons.prems(1))
  next
    fix prev c n s'
    assume "c \<in> set buf" and "P s'"
    then show "P (snd (body sl e prev c n s'))"
      by (intro Cons.prems(2)) simp_all
  qed
  moreover have "P (snd (body sl e prev c n s'))"
    if "c \<in> \<Union> (set ` set reads)" and "P s'" for prev c n s'
    using that by (intro Cons.prems(2)) simp_all
  ultimately have "P (read_loop sl e reads (scan sl e 0 buf s))"
    by (intro Cons.IH) blast+
  then show ?case by simp
qed

lemma read_loop_lines_mono:
  "actualSampleLines s \<le> actualSampleLines (read_loop sl e reads s)"
proof (rule read_loop_invariant [where P = "\<lambda>s'. actualSampleLines s \<le> actualSampleLines s'"])
  show "actualSampleLines s \<le> actualSampleLines s" by simp
next
  fix prev c n and s' :: sampler
  assume "actualSampleLines s \<le> actualSampleLines s'"
  with body_lines_mono [of s' sl e prev c n]
  show "actualSampleLines s \<le> actualSampleLines (snd (body sl e prev c n s'))" by linarith
qed

lemma sample_lines_ge_1: "1 \<le> snd (sample reads sl e)"
  using read_loop_lines_mono
    [of "\<lparr>frequencies = createFrequencyTable, enclosed = False, actualSampleLines = 1\<rparr>" sl e reads]
  by (simp add: sample_def Let_def)

text \<open>Without a linefeed and a carriage-return among the bytes, no line is counted.\<close>

lemma body_no_line_break:
  "c \<noteq> LF \<Longrightarrow> c \<noteq> CR \<Longrightarrow>
     actualSampleLines (snd (body sl e prev c n s)) = actualSampleLines s"
  by (simp add: body_def)

lemma read_loop_no_line_break:
  assumes "\<forall>buf \<in> set reads. LF \<notin> set buf \<and> CR \<notin> set buf"
  shows "actualSampleLines (read_loop sl e reads s) = actualSampleLines s"
proof (rule read_loop_invariant [where P = "\<lambda>s'. actualSampleLines s' = actualSampleLines s"])
  show "actualSampleLines s = actualSampleLines s" by simp
next
  fix prev c n and s' :: sampler
  assume c: "c \<in> \<Union> (set ` set reads)" and eq: "actualSampleLines s' = actualSampleLines s"
  from c assms have "c \<noteq> LF" "c \<noteq> CR" by auto
  with eq show "actualSampleLines (snd (body sl e prev c n s')) = actualSampleLines s"
    by (simp add: body_no_line_break)
qed

text \<open>Every count in the table is at least one.\<close>

lemma positive_counts_increment:
  assumes "positive_counts f"
  shows "positive_counts (increment f c line)"
  unfolding positive_counts_def
proof (intro allI impI)
  fix c' m i v
  assume m: "increment f c line c' = Some m" and v: "m i = Some v"
  show "1 \<le> v"
  proof (cases "c' = c")
    case False
    with m have "f c' = Some m"
      by (simp add: increment_def Let_def split: option.splits)
    with assms v show ?thesis unfolding positive_counts_def by blast
  next
    case True
    show ?thesis
    proof (cases "f c")
      case None
      with m True v show ?thesis
        by (auto simp: increment_def Let_def split: if_splits)
    next
      case (Some row)
      have old: "\<And>j w. row j = Some w \<Longrightarrow> 1 \<le> w"
        using assms Some unfolding positive_counts_def by blast
      from m True Some have
        "m = row(line \<mapsto> (case row line of None \<Rightarrow> 0 | Some w \<Rightarrow> w) + 1)"
        by (auto simp: increment_def Let_def split: option.splits)
      with v have "v = (case row line of None \<Rightarrow> 0 | Some w \<Rightarrow> w) + 1 \<or> row i = Some v"
        by (auto split: if_splits)
      then show ?thesis
      proof
        assume "v = (case row line of None \<Rightarrow> 0 | Some w \<Rightarrow> w) + 1"
        then show ?thesis using old [of line] by (cases "row line") auto
      next
        assume "row i = Some v"
        then show ?thesis by (rule old)
      qed
    qed
  qed
qed

lemma positive_counts_body:
  "positive_counts (frequencies s) \<Longrightarrow> positive_counts (frequencies (snd (body sl e prev c n s)))"
  by (simp add: body_def Let_def positive_counts_increment)

lemma positive_counts_sample: "positive_counts (fst (sample reads sl e))"
proof -
  have "positive_counts (frequencies \<lparr>frequencies = createFrequencyTable, enclosed = False,
          actualSampleLines = 1\<rparr>)"
    by (simp add: createFrequencyTable_def positive_counts_def)
  then have "positive_counts (frequencies (read_loop sl e reads
          \<lparr>frequencies = createFrequencyTable, enclosed = False, actualSampleLines = 1\<rparr>))"
    by (rule read_loop_invariant [where P = "\<lambda>s. positive_counts (frequencies s)"])
       (rule positive_counts_body)
  then show ?thesis by (simp add: sample_def Let_def)
qed

subsection \<open>Streams that end and streams that do not\<close>

lemma read_stream_finite:
  assumes "\<forall>i < length reads. rd (k + i) = Some (reads ! i)" and "rd (k + length reads) = None"
  shows "read_stream sl e rd k s = Some (read_loop sl e reads s)"
  using assms
proof (induction reads arbitrary: k s)
  case Nil
  then show ?case by (subst read_stream.simps) simp
next
  case (Cons buf reads)
  from Cons.prems(1) have here: "rd k = Some buf" by force
  have "\<forall>i < length reads. rd (Suc k + i) = Some (reads ! i)"
  proof (intro allI impI)
    fix i assume "i < length reads"
    with Cons.prems(1) have "rd (k + Suc i) = Some ((buf # reads) ! Suc i)" by force
    then show "rd (Suc k + i) = Some (reads ! i)" by simp
  qed
  moreover from Cons.prems(2) have "rd (Suc k + length reads) = None" by simp
  ultimately have "read_stream sl e rd (Suc k) (scan sl e 0 buf s) =
      Some (read_loop sl e reads (scan sl e 0 buf s))"
    by (rule Cons.IH)
  with here show ?case by (subst read_stream.simps) simp
qed

lemma read_stream_of: "read_stream sl e (stream_of reads) 0 s = Some (read_loop sl e reads s)"
  by (rule read_stream_finite) (simp_all add: stream_of_def)

lemma read_stream_returns:
  assumes "read_stream sl e rd k s = Some y"
  shows "\<exists>j. rd j = None"
proof (rule read_stream.raw_induct [where P = "\<lambda>_ _ rd _ _ _. \<exists>j. rd j = None", OF _ assms])
  fix S :: "int \<Rightarrow> byte \<Rightarrow> stream \<Rightarrow> nat \<Rightarrow> sampler \<Rightarrow> sampler option"
    and sl e rd k s y
  assume IH: "\<And>sl e rd k s y. S sl e rd k s = Some y \<Longrightarrow> \<exists>j. rd j = None"
    and eq: "(case rd k of None \<Rightarrow> Some s
              | Some buf \<Rightarrow> S sl e rd (Suc k) (scan sl e 0 buf s)) = Some y"
  show "\<exists>j. rd j = None"
  proof (cases "rd k")
    case None
    then show ?thesis by blast
  next
    case (Some buf)
    with eq have "S sl e rd (Suc k) (scan sl e 0 buf s) = Some y" by simp
    then show ?thesis by (rule IH)
  qed
qed

lemma read_stream_endless:
  assumes "\<forall>k. rd k \<noteq> None"
  shows "read_stream sl e rd k s = None"
proof (rule ccontr)
  assume "read_stream sl e rd k s \<noteq> None"
  then obtain y where "read_stream sl e rd k s = Some y" by auto
  then obtain j where "rd j = None" using read_stream_returns by blast
  with assms show False by blast
qed


lemma sample_stream_of: "sample_stream (stream_of reads) sl e = Some (sample reads sl e)"
  by (simp add: sample_stream_def sample_def read_stream_of Let_def)

lemma sample_stream_endless: "\<forall>k. reader k \<noteq> None \<Longrightarrow> sample_stream reader sl e = None"
  by (simp add: sample_stream_def read_stream_endless)

text \<open>Whenever the sampling of a stream returns, it is the sampling of finitely many reads.\<close>

lemma read_stream_is_read_loop:
  assumes "read_stream sl e rd k s = Some y"
  shows "\<exists>reads. y = read_loop sl e reads s"
proof (rule read_stream.raw_induct
    [where P = "\<lambda>sl e rd k s y. \<exists>reads. y = read_loop sl e reads s", OF _ assms])
  fix S :: "int \<Rightarrow> byte \<Rightarrow> stream \<Rightarrow> nat \<Rightarrow> sampler \<Rightarrow> sampler option"
    and sl e rd k s y
  assume IH: "\<And>sl e rd k s y. S sl e rd k s = Some y \<Longrightarrow> \<exists>reads. y = read_loop sl e reads s"
    and eq: "(case rd k of None \<Rightarrow> Some s
              | Some buf \<Rightarrow> S sl e rd (Suc k) (scan sl e 0 buf s)) = Some y"
  show "\<exists>reads. y = read_loop sl e reads s"
  proof (cases "rd k")
    case None
    with eq have "y = read_loop sl e [] s" by simp
    then show ?thesis by blast
  next
    case (Some buf)
    with eq have "S sl e rd (Suc k) (scan sl e 0 buf s) = Some y" by simp
    from IH [OF this] obtain reads where "y = read_loop sl e reads (scan sl e 0 buf s)" by blast
    then have "y = read_loop sl e (buf # reads) s" by simp
    then show ?thesis by blast
  qed
qed

lemma sample_stream_is_sample:
  "sample_stream reader sl e = Some r \<Longrightarrow> \<exists>reads. r = sample reads sl e"
  using read_stream_is_read_loop
  by (fastforce simp: sample_stream_def sample_def Let_def)

subsection \<open>Streams of whole lines\<close>

text \<open>
  Where the target is not reached, no carriage-return stands outside quotes and the
  enclosure byte is neither the zero byte nor the carriage-return, the inner loop
  passes over a stretch of bytes as the iteration of \<open>feed\<close> does: lookbehind only
  matters behind a carriage-return outside quotes, and lookahead only tells a doubled
  enclosure character, which leaves the state as two toggles do.
\<close>

lemma feed_pair: "fold (feed e) (e # e # xs) s = fold (feed e) xs s"
  by (cases s) (simp add: feed_def)

lemma scan_prefix:
  assumes "e \<noteq> 0" and "e \<noteq> CR"
    and "CR \<notin> set (outside_from (enclosed s) e xs)"
    and "actualSampleLines s + int (count_list (outside_from (enclosed s) e xs) LF) < sl"
    and "prev = CR \<longrightarrow> enclosed s"
    and "case ys of [] \<Rightarrow> True | y # _ \<Rightarrow> y \<noteq> e"
  shows "scan sl e prev (xs @ ys) s = scan sl e (last (prev # xs)) ys (fold (feed e) xs s)"
  using assms(3-5)
proof (induction "length xs" arbitrary: xs prev s rule: less_induct)
  case less
  show ?case
  proof (cases xs)
    case Nil
    then show ?thesis by simp
  next
    case (Cons x xs')
    let ?next = "case xs' @ ys of [] \<Rightarrow> 0 | n # _ \<Rightarrow> n"
    have unfold: "scan sl e prev (xs @ ys) s =
        (case body sl e prev x ?next s of
           (Continue, s') \<Rightarrow> scan sl e x (xs' @ ys) s'
         | (Skip, s') \<Rightarrow> scan sl e ?next (tl (xs' @ ys)) s'
         | (Break, s') \<Rightarrow> s')"
      unfolding Cons by (simp only: append_Cons scan_Cons)
    show ?thesis
    proof (cases "x = e")
      case True
      show ?thesis
      proof (cases "enclosed s \<and> ?next = e")
        case skip: True
        have "xs' \<noteq> []"
        proof
          assume "xs' = []"
          with skip assms(1,6) show False by (cases ys) auto
        qed
        then obtain y xs'' where xs': "xs' = y # xs''" by (cases xs') auto
        with skip have y: "y = e" by simp
        have body: "body sl e prev x ?next s = (Skip, s)"
          using True skip by (simp add: body_def)
        have len: "length xs'' < length xs" by (simp add: Cons xs')
        have out: "outside_from (enclosed s) e xs = outside_from (enclosed s) e xs''"
          using True y skip by (simp add: Cons xs')
        have "scan sl e e (xs'' @ ys) s = scan sl e (last (e # xs'')) ys (fold (feed e) xs'' s)"
          using less.prems out skip assms(2) by (intro less.hyps [OF len]) auto
        moreover have "fold (feed e) xs s = fold (feed e) xs'' s"
          unfolding Cons xs' True y by (rule feed_pair)
        moreover have "last (prev # xs) = last (e # xs'')"
          by (simp add: Cons xs' y)
        ultimately show ?thesis
          unfolding unfold body by (simp add: xs' y)
      next
        case toggle: False
        have body: "body sl e prev x ?next s = (Continue, s\<lparr>enclosed := \<not> enclosed s\<rparr>)"
          using True toggle by (auto simp: body_def)
        have len: "length xs' < length xs" by (simp add: Cons)
        have out: "outside_from (enclosed s) e xs = outside_from (\<not> enclosed s) e xs'"
          using True by (simp add: Cons)
        have "scan sl e x (xs' @ ys) (s\<lparr>enclosed := \<not> enclosed s\<rparr>) =
              scan sl e (last (x # xs')) ys (fold (feed e) xs' (s\<lparr>enclosed := \<not> enclosed s\<rparr>))"
          using less.prems out True assms(2) by (intro less.hyps [OF len]) auto
        moreover have "fold (feed e) xs s = fold (feed e) xs' (s\<lparr>enclosed := \<not> enclosed s\<rparr>)"
          using True by (simp add: Cons feed_def)
        moreover have "last (prev # xs) = last (x # xs')" by (simp add: Cons)
        ultimately show ?thesis
          unfolding unfold body by simp
      qed
    next
      case other: False
      have len: "length xs' < length xs" by (simp add: Cons)
      show ?thesis
      proof (cases "enclosed s")
        case True
        have body: "body sl e prev x ?next s = (Continue, s)"
          using other True by (simp add: body_def)
        have out: "outside_from (enclosed s) e xs = outside_from (enclosed s) e xs'"
          using other True by (simp add: Cons)
        have "scan sl e x (xs' @ ys) s = scan sl e (last (x # xs')) ys (fold (feed e) xs' s)"
          using less.prems out True by (intro less.hyps [OF len]) auto
        moreover have "fold (feed e) xs s = fold (feed e) xs' s"
          using other True by (simp add: Cons feed_def)
        moreover have "last (prev # xs) = last (x # xs')" by (simp add: Cons)
        ultimately show ?thesis
          unfolding unfold body by simp
      next
        case False
        have out: "outside_from (enclosed s) e xs = x # outside_from (enclosed s) e xs'"
          using other False by (simp add: Cons)
        with less.prems(1) have notCR: "x \<noteq> CR" by auto
        from less.prems(3) False have prev: "prev \<noteq> CR" by auto
        have body: "body sl e prev x ?next s = (Continue, feed e x s)"
        proof (cases "x = LF")
          case True
          with less.prems(2) out have "actualSampleLines s + 1 < sl" by simp
          with True other False prev show ?thesis
            by (simp add: body_def feed_def Let_def)
        next
          case False
          with other \<open>\<not> enclosed s\<close> notCR show ?thesis
            by (simp add: body_def feed_def)
        qed
        have enc: "enclosed (feed e x s) = enclosed s"
          using other by (simp add: feed_def)
        have lines: "actualSampleLines (feed e x s) =
            actualSampleLines s + (if x = LF then 1 else 0)"
          using other False notCR by (simp add: feed_def)
        have "scan sl e x (xs' @ ys) (feed e x s) =
              scan sl e (last (x # xs')) ys (fold (feed e) xs' (feed e x s))"
        proof (rule less.hyps [OF len])
          show "CR \<notin> set (outside_from (enclosed (feed e x s)) e xs')"
            using less.prems(1) out enc by simp
          show "actualSampleLines (feed e x s) +
              int (count_list (outside_from (enclosed (feed e x s)) e xs') LF) < sl"
            using less.prems(2) out enc lines by (auto split: if_splits)
          show "x = CR \<longrightarrow> enclosed (feed e x s)" using notCR by simp
        qed
        moreover have "fold (feed e) xs s = fold (feed e) xs' (feed e x s)"
          by (simp add: Cons)
        moreover have "last (prev # xs) = last (x # xs')" by (simp add: Cons)
        ultimately show ?thesis
          unfolding unfold body by simp
      qed
    qed
  qed
qed

lemma outside_from_append:
  "outside_from q e (xs @ ys) =
     outside_from q e xs @ outside_from (q \<noteq> odd (count_list xs e)) e ys"
  by (induction xs arbitrary: q) auto

lemma enclosed_fold_feed:
  "enclosed (fold (feed e) xs s) = (enclosed s \<noteq> odd (count_list xs e))"
  by (induction xs arbitrary: s) (auto simp: feed_def)

lemma lines_fold_feed:
  "actualSampleLines (fold (feed e) xs s) =
     actualSampleLines s + int (count_list (outside_from (enclosed s) e xs) LF)
       + int (count_list (outside_from (enclosed s) e xs) CR)"
  by (induction xs arbitrary: s) (auto simp: feed_def)

lemma last_not_CR:
  assumes "e \<noteq> CR" and "CR \<notin> set (outside_from (enclosed s) e xs)"
    and "prev = CR \<longrightarrow> enclosed s"
  shows "last (prev # xs) = CR \<longrightarrow> enclosed (fold (feed e) xs s)"
  using assms(2,3)
proof (induction xs arbitrary: prev s)
  case Nil
  then show ?case by simp
next
  case (Cons x xs)
  have "last (x # xs) = CR \<longrightarrow> enclosed (fold (feed e) xs (feed e x s))"
  proof (rule Cons.IH)
    show "CR \<notin> set (outside_from (enclosed (feed e x s)) e xs)"
      using Cons.prems(1) by (auto simp: feed_def split: if_splits)
    show "x = CR \<longrightarrow> enclosed (feed e x s)"
      using Cons.prems(1) assms(1) by (auto simp: feed_def split: if_splits)
  qed
  then show ?case by simp
qed

lemma tab_increment:
  "tab (increment f x line) c i = tab f c i + (if c = x \<and> i = line then 1 else 0)"
  by (auto simp: tab_def increment_def Let_def split: option.splits)

lemma tab_feed:
  "tab (frequencies (feed e x s)) c i =
     tab (frequencies s) c i +
       (if x \<noteq> e \<and> \<not> enclosed s \<and> x \<noteq> LF \<and> x \<noteq> CR \<and> \<not> nonDelimiterRegex_MatchString x \<and>
           c = x \<and> i = actualSampleLines s then 1 else 0)"
  by (simp add: feed_def tab_increment)

text \<open>A stretch of bytes without a line break outside quotes is booked on the current line.\<close>

lemma tab_fold_feed:
  assumes "LF \<notin> set (outside_from (enclosed s) e xs)"
    and "CR \<notin> set (outside_from (enclosed s) e xs)"
    and "\<not> nonDelimiterRegex_MatchString c"
  shows "tab (frequencies (fold (feed e) xs s)) c i =
           tab (frequencies s) c i +
             (if i = actualSampleLines s
              then int (count_list (outside_from (enclosed s) e xs) c) else 0)"
  using assms(1,2)
proof (induction xs arbitrary: s)
  case Nil
  then show ?case by simp
next
  case (Cons x xs)
  have enc: "enclosed (feed e x s) = (if x = e then \<not> enclosed s else enclosed s)"
    by (simp add: feed_def)
  have out: "outside_from (enclosed s) e (x # xs) =
      (if x \<noteq> e \<and> \<not> enclosed s then [x] else []) @ outside_from (enclosed (feed e x s)) e xs"
    by (simp add: enc)
  have nobreak: "x \<noteq> e \<and> \<not> enclosed s \<longrightarrow> x \<noteq> LF \<and> x \<noteq> CR"
    using Cons.prems by auto
  then have lines: "actualSampleLines (feed e x s) = actualSampleLines s"
    by (auto simp: feed_def)
  have "tab (frequencies (fold (feed e) xs (feed e x s))) c i =
      tab (frequencies (feed e x s)) c i +
        (if i = actualSampleLines (feed e x s)
         then int (count_list (outside_from (enclosed (feed e x s)) e xs) c) else 0)"
    using Cons.prems out by (intro Cons.IH) (auto split: if_splits)
  then show ?case
    using nobreak assms(3) unfolding out lines
    by (auto simp: tab_feed)
qed

lemma read_loop_feeds:
  assumes "e \<noteq> 0" and "e \<noteq> CR"
    and "CR \<notin> set (outside_from (enclosed s) e (concat reads))"
    and "actualSampleLines s + int (count_list (outside_from (enclosed s) e (concat reads)) LF) < sl"
  shows "read_loop sl e reads s = fold (feed e) (concat reads) s"
  using assms(3,4)
proof (induction reads arbitrary: s)
  case Nil
  then show ?case by simp
next
  case (Cons buf reads)
  let ?s' = "fold (feed e) buf s"
  have split: "outside_from (enclosed s) e (concat (buf # reads)) =
      outside_from (enclosed s) e buf @ outside_from (enclosed ?s') e (concat reads)"
    by (simp add: outside_from_append enclosed_fold_feed)
  have noCR: "CR \<notin> set (outside_from (enclosed s) e buf)"
    and noCR': "CR \<notin> set (outside_from (enclosed ?s') e (concat reads))"
    using Cons.prems(1) unfolding split by auto
  have count: "actualSampleLines s + int (count_list (outside_from (enclosed s) e buf) LF)
      + int (count_list (outside_from (enclosed ?s') e (concat reads)) LF) < sl"
    using Cons.prems(2) unfolding split by simp
  have "scan sl e 0 (buf @ []) s = scan sl e (last (0 # buf)) [] ?s'"
    using assms(1,2) noCR count by (intro scan_prefix) auto
  then have scan: "scan sl e 0 buf s = ?s'" by simp
  have "actualSampleLines ?s' = actualSampleLines s + int (count_list (outside_from (enclosed s) e buf) LF)"
    using noCR by (simp add: lines_fold_feed)
  with count have "actualSampleLines ?s' +
      int (count_list (outside_from (enclosed ?s') e (concat reads)) LF) < sl" by simp
  with noCR' have "read_loop sl e reads ?s' = fold (feed e) (concat reads) ?s'"
    by (rule Cons.IH)
  with scan show ?case by simp
qed

lemma outside_lines:
  assumes "e \<noteq> LF" and "\<forall>l \<in> set ls. even (count_list l e)"
  shows "outside_from False e (terminated_lines [LF] ls @ rest) =
           concat (map (\<lambda>l. outside e l @ [LF]) ls) @ outside e rest"
  using assms(2)
proof (induction ls)
  case Nil
  then show ?case by (simp add: terminated_lines_def outside_def)
next
  case (Cons l ls)
  have "terminated_lines [LF] (l # ls) @ rest = l @ (LF # (terminated_lines [LF] ls @ rest))"
    by (simp add: terminated_lines_Cons)
  then have "outside_from False e (terminated_lines [LF] (l # ls) @ rest) =
      outside e l @ LF # outside_from False e (terminated_lines [LF] ls @ rest)"
    using Cons.prems assms(1) by (simp add: outside_from_append outside_def)
  with Cons show ?case by simp
qed

lemma lines_unbroken:
  assumes "e \<noteq> LF" and "\<forall>l \<in> set ls. sampled_line e l"
    and "LF \<notin> set (outside e rest)" and "CR \<notin> set (outside e rest)"
  shows "CR \<notin> set (outside_from False e (terminated_lines [LF] ls @ rest))"
    and "count_list (outside_from False e (terminated_lines [LF] ls @ rest)) LF = length ls"
proof -
  have even: "\<forall>l \<in> set ls. even (count_list l e)"
    using assms(2) by (simp add: sampled_line_def)
  have out: "outside_from False e (terminated_lines [LF] ls @ rest) =
      concat (map (\<lambda>l. outside e l @ [LF]) ls) @ outside e rest"
    using assms(1) even by (rule outside_lines)
  show "CR \<notin> set (outside_from False e (terminated_lines [LF] ls @ rest))"
    unfolding out using assms(2,4) by (auto simp: sampled_line_def)
  have "count_list (concat (map (\<lambda>l. outside e l @ [LF]) ls)) LF = length ls"
    using assms(2) by (induction ls) (auto simp: sampled_line_def count_list_0_iff)
  then show "count_list (outside_from False e (terminated_lines [LF] ls @ rest)) LF = length ls"
    unfolding out using assms(3) by (simp add: count_list_0_iff)
qed

text \<open>The state of the sampler behind a sequence of whole lines.\<close>

lemma feed_lines:
  assumes "e \<noteq> LF" and "\<not> nonDelimiterRegex_MatchString c"
    and "\<forall>l \<in> set ls. sampled_line e l \<and> count_list (outside e l) c = k"
    and "\<not> enclosed s"
  shows "\<not> enclosed (fold (feed e) (terminated_lines [LF] ls) s) \<and>
         actualSampleLines (fold (feed e) (terminated_lines [LF] ls) s) =
           actualSampleLines s + int (length ls) \<and>
         tab (frequencies (fold (feed e) (terminated_lines [LF] ls) s)) c i =
           tab (frequencies s) c i +
             (if actualSampleLines s \<le> i \<and> i < actualSampleLines s + int (length ls)
              then int k else 0)"
  using assms(3,4)
proof (induction ls arbitrary: s)
  case Nil
  then show ?case by (simp add: terminated_lines_def)
next
  case (Cons l ls)
  from Cons.prems(1) have l: "even (count_list l e)" "LF \<notin> set (outside e l)"
    "CR \<notin> set (outside e l)" "count_list (outside e l) c = k"
    by (simp_all add: sampled_line_def)
  let ?s1 = "fold (feed e) l s"
  let ?s2 = "feed e LF ?s1"
  have enc1: "\<not> enclosed ?s1"
    using l(1) Cons.prems(2) by (simp add: enclosed_fold_feed)
  have lines1: "actualSampleLines ?s1 = actualSampleLines s"
    using l(2,3) Cons.prems(2) by (simp add: lines_fold_feed outside_def count_list_0_iff)
  have tab1: "tab (frequencies ?s1) c i =
      tab (frequencies s) c i + (if i = actualSampleLines s then int k else 0)"
    using tab_fold_feed [of s e l c i] l(2,3,4) Cons.prems(2) assms(2)
    by (simp add: outside_def)
  have s2: "\<not> enclosed ?s2" "actualSampleLines ?s2 = actualSampleLines s + 1"
    "frequencies ?s2 = frequencies ?s1"
    using enc1 lines1 assms(1) by (simp_all add: feed_def)
  have whole: "fold (feed e) (terminated_lines [LF] (l # ls)) s =
      fold (feed e) (terminated_lines [LF] ls) ?s2"
    by (simp add: terminated_lines_Cons)
  from Cons.IH [of ?s2] Cons.prems(1) s2(1)
  have IH: "\<not> enclosed (fold (feed e) (terminated_lines [LF] ls) ?s2)"
    "actualSampleLines (fold (feed e) (terminated_lines [LF] ls) ?s2) =
       actualSampleLines ?s2 + int (length ls)"
    "tab (frequencies (fold (feed e) (terminated_lines [LF] ls) ?s2)) c i =
       tab (frequencies ?s2) c i +
         (if actualSampleLines ?s2 \<le> i \<and> i < actualSampleLines ?s2 + int (length ls)
          then int k else 0)"
    by simp_all
  show ?case
    unfolding whole using IH tab1 s2 by auto
qed

lemma terminated_lines_snoc:
  "terminated_lines t (ls @ [l]) = terminated_lines t ls @ l @ t"
  by (simp add: terminated_lines_def)

lemma tab_empty: "tab createFrequencyTable c i = 0"
  by (simp add: tab_def createFrequencyTable_def)

text \<open>
  The sample of a stream of whole lines, when the target is not reached before the last
  read: the line count is one more than the number of lines, and every line is booked
  with its number of occurrences outside quotes.
\<close>

lemma sample_of_lines:
  assumes e: "e \<noteq> 0" "e \<noteq> LF" "e \<noteq> CR"
    and c: "\<not> nonDelimiterRegex_MatchString c"
    and ls: "\<forall>l \<in> set ls. sampled_line e l \<and> count_list (outside e l) c = k"
    and reads: "length ls < 14 \<and> concat reads = terminated_lines [LF] ls @ rest \<and>
                  LF \<notin> set (outside e rest) \<and> CR \<notin> set (outside e rest) \<or>
                length ls = 14 \<and> reads = [terminated_lines [LF] ls @ rest]"
  shows "snd (sample reads sampleLines e) = int (length ls) + 1 \<and>
         (\<forall>i \<in> {1..int (length ls)}. tab (fst (sample reads sampleLines e)) c i = int k)"
proof -
  let ?s0 = "\<lparr>frequencies = createFrequencyTable, enclosed = False, actualSampleLines = 1\<rparr>"
  let ?sL = "fold (feed e) (terminated_lines [LF] ls) ?s0"
  have wf: "\<forall>l \<in> set ls. sampled_line e l" using ls by simp
  have sL: "\<not> enclosed ?sL" "actualSampleLines ?sL = 1 + int (length ls)"
    "\<And>i. tab (frequencies ?sL) c i = (if 1 \<le> i \<and> i < 1 + int (length ls) then int k else 0)"
    using feed_lines [OF e(2) c ls, of ?s0] by (simp_all add: tab_empty)
  from reads show ?thesis
  proof
    assume A: "length ls < 14 \<and> concat reads = terminated_lines [LF] ls @ rest \<and>
                  LF \<notin> set (outside e rest) \<and> CR \<notin> set (outside e rest)"
    then have rest: "LF \<notin> set (outside e rest)" "CR \<notin> set (outside e rest)" by simp_all
    have noCR: "CR \<notin> set (outside_from (enclosed ?s0) e (concat reads))"
      using lines_unbroken(1) [OF e(2) wf rest] A by simp
    have count: "count_list (outside_from (enclosed ?s0) e (concat reads)) LF = length ls"
      using lines_unbroken(2) [OF e(2) wf rest] A by simp
    have "actualSampleLines ?s0 +
        int (count_list (outside_from (enclosed ?s0) e (concat reads)) LF) < 15"
      unfolding count using A by simp
    with noCR have "read_loop 15 e reads ?s0 = fold (feed e) (concat reads) ?s0"
      by (intro read_loop_feeds e)
    also have "\<dots> = fold (feed e) rest ?sL" using A by simp
    finally have final: "read_loop 15 e reads ?s0 = fold (feed e) rest ?sL" .
    have rest': "LF \<notin> set (outside_from (enclosed ?sL) e rest)"
      "CR \<notin> set (outside_from (enclosed ?sL) e rest)"
      using rest sL(1) by (simp_all add: outside_def)
    have lines: "actualSampleLines (fold (feed e) rest ?sL) = 1 + int (length ls)"
      using rest' sL(2) by (simp add: lines_fold_feed count_list_0_iff)
    have tabs: "tab (frequencies (fold (feed e) rest ?sL)) c i = int k"
      if "i \<in> {1..int (length ls)}" for i
      using that tab_fold_feed [OF rest' c, of i] sL(2) sL(3) [of i] by simp
    show ?thesis
      using lines tabs by (simp add: sample_def sampleLines_def final Let_def)
  next
    assume B: "length ls = 14 \<and> reads = [terminated_lines [LF] ls @ rest]"
    then have "ls \<noteq> []" by auto
    then obtain ls' l where split: "ls = ls' @ [l]" by (metis rev_exhaust)
    with B have len': "length ls' = 13" by simp
    from wf split have wf': "\<forall>l \<in> set ls'. sampled_line e l" and l: "sampled_line e l"
      by simp_all
    let ?xs = "terminated_lines [LF] ls' @ l"
    have content: "terminated_lines [LF] ls @ rest = ?xs @ (LF # rest)"
      by (simp add: split terminated_lines_snoc)
    have l': "LF \<notin> set (outside e l)" "CR \<notin> set (outside e l)"
      using l by (simp_all add: sampled_line_def)
    have noCR: "CR \<notin> set (outside_from (enclosed ?s0) e ?xs)"
      using lines_unbroken(1) [OF e(2) wf' l'] by simp
    have count: "count_list (outside_from (enclosed ?s0) e ?xs) LF = 13"
      using lines_unbroken(2) [OF e(2) wf' l'] len' by simp
    let ?s1 = "fold (feed e) ?xs ?s0"
    have below: "actualSampleLines ?s0 +
        int (count_list (outside_from (enclosed ?s0) e ?xs) LF) < 15"
      unfolding count by simp
    have "scan 15 e 0 (?xs @ (LF # rest)) ?s0 = scan 15 e (last (0 # ?xs)) (LF # rest) ?s1"
      using e(2) by (intro scan_prefix [OF e(1) e(3) noCR below]) simp_all
    moreover have "feed e LF ?s1 = ?sL"
      by (simp add: split terminated_lines_snoc)
    moreover have "scan 15 e (last (0 # ?xs)) (LF # rest) ?s1 = feed e LF ?s1"
    proof -
      have enc: "\<not> enclosed ?s1"
        using sL(1) \<open>feed e LF ?s1 = ?sL\<close> e(2) by (auto simp: feed_def split: if_splits)
      have "actualSampleLines (feed e LF ?s1) = 15"
        using sL(2) B \<open>feed e LF ?s1 = ?sL\<close> by simp
      then have lines1: "actualSampleLines ?s1 = 14"
        using enc e(2) by (simp add: feed_def)
      have "last (0 # ?xs) = CR \<longrightarrow> enclosed ?s1"
        using noCR e(3) by (intro last_not_CR) simp_all
      with enc have prev: "last (0 # ?xs) \<noteq> CR" by blast
      show ?thesis
        using enc lines1 prev e(2)
        by (simp add: scan_Cons body_def feed_def Let_def del: fold_append)
    qed
    ultimately have final: "read_loop 15 e reads ?s0 = ?sL"
      using B by (simp add: content del: fold_append)
    show ?thesis
      using sL(2) sL(3) by (simp add: sample_def sampleLines_def final Let_def)
  qed
qed

subsection \<open>The reads of an in-memory stream\<close>


lemma chop_short: "xs \<noteq> [] \<Longrightarrow> length xs \<le> n \<Longrightarrow> chop n xs = [xs]"
proof -
  assume ne: "xs \<noteq> []" and le: "length xs \<le> n"
  then have "0 < n" by (cases xs) auto
  with ne le have "chop n xs = xs # chop n []"
    by (subst chop.simps) simp
  then show ?thesis by (subst (asm) (2) chop.simps) simp
qed

lemma chop_append:
  "length xs = n \<Longrightarrow> 0 < n \<Longrightarrow> chop n (xs @ ys) = xs # chop n ys"
  by (subst chop.simps) auto

lemma fourteen: "replicate 14 x = [x, x, x, x, x, x, x, x, x, x, x, x, x, x]"
  by (simp add: eval_nat_numeral)

lemma reads_of_failing_input:
  "buffered_reads (replicate 14 LF @ replicate 1010 0x61 @ [0x2C, LF] @ replicate 1022 0x61 @ [0x2C]) =
     [replicate 14 LF @ replicate 1010 0x61, [0x2C, LF] @ replicate 1022 0x61, [0x2C]]"
proof -
  let ?A = "replicate 14 LF @ replicate 1010 (0x61 :: byte)"
  let ?B = "[0x2C, LF] @ replicate 1022 (0x61 :: byte)"
  let ?C = "[0x2C :: byte]"
  have "chop 4096 (?A @ ?B @ ?C) = [?A @ ?B @ ?C]"
    by (rule chop_short) simp_all
  moreover have "chop 1024 (?A @ ?B @ ?C) = ?A # chop 1024 (?B @ ?C)"
    by (rule chop_append) simp_all
  moreover have "chop 1024 (?B @ ?C) = ?B # chop 1024 ?C"
    by (rule chop_append) simp_all
  moreover have "chop 1024 ?C = [?C]"
    by (rule chop_short) simp_all
  ultimately show ?thesis
    by (simp add: buffered_reads_def)
qed

subsection \<open>Claims about the sampler\<close>

text \<open>
  C4. The claim is that the sampler stops once the target of 15 lines is reached, so
  that the line count it returns never exceeds 15 and nothing is recorded at a line
  above 15. The \<open>break\<close> that is meant to stop the sampling leaves the inner loop
  only, and the next read goes on counting and recording. The stream of 2049 bytes
  below has fourteen empty lines and then letters up to the end of the first read of
  1024 bytes; the second read starts with a comma and a linefeed, the third read is a
  single comma. The sampler returns the line count 16 and has recorded the second comma
  on line 16.
\<close>

theorem sample_exceeds_target:
  "sample (buffered_reads
      (replicate 14 LF @ replicate 1010 0x61 @ [0x2C, LF] @ replicate 1022 0x61 @ [0x2C]))
      sampleLines 0x22 = ([0x2C \<mapsto> [15 \<mapsto> 1, 16 \<mapsto> 1]], 16)"
  unfolding reads_of_failing_input
  by (simp add: fourteen sample_def sampleLines_def scan_Cons body_def increment_def
      createFrequencyTable_def nonDelimiterRegex_MatchString_def)

theorem sample_exceeds_target_witness:
  "sampleLines < snd (sample (buffered_reads
      (replicate 14 LF @ replicate 1010 0x61 @ [0x2C, LF] @ replicate 1022 0x61 @ [0x2C]))
      sampleLines 0x22)"
  unfolding sample_exceeds_target by (simp add: sampleLines_def)

text \<open>
  C5. A byte that the loop body meets while the enclosure state is active is never
  recorded, never counted as a line break and never ends the inner loop. A run of
  bytes inside an enclosure that holds no enclosure character is passed over as a
  whole: whatever the bytes are, linefeeds, carriage-returns and delimiters included,
  the sampler goes on behind the run with its variables unchanged.
\<close>

theorem enclosed_bytes_ignored:
  assumes "enclosed s"
  shows "frequencies (snd (body sl e prev current next s)) = frequencies s \<and>
         actualSampleLines (snd (body sl e prev current next s)) = actualSampleLines s \<and>
         fst (body sl e prev current next s) \<noteq> Break \<and>
         (e \<notin> set xs \<longrightarrow>
            scan sl e prev (xs @ ys) s = scan sl e (last (prev # xs)) ys s)"
  using assms body_enclosed [of s sl e prev current "next"] scan_enclosed_segment [of s e xs sl prev ys]
  by blast

theorem enclosed_bytes_ignored_witness:
  "frequencies (snd (body 15 0x22 0x61 LF 0x2C
      \<lparr>frequencies = Map.empty, enclosed = True, actualSampleLines = 1\<rparr>)) = Map.empty \<and>
   actualSampleLines (snd (body 15 0x22 0x61 LF 0x2C
      \<lparr>frequencies = Map.empty, enclosed = True, actualSampleLines = 1\<rparr>)) = 1 \<and>
   fst (body 15 0x22 0x61 LF 0x2C
      \<lparr>frequencies = Map.empty, enclosed = True, actualSampleLines = 1\<rparr>) \<noteq> Break \<and>
   scan 15 0x22 0x61 ([0x2C, LF, 0x3B] @ [0x22, 0x2C])
      \<lparr>frequencies = Map.empty, enclosed = True, actualSampleLines = 1\<rparr> =
   scan 15 0x22 0x3B [0x22, 0x2C]
      \<lparr>frequencies = Map.empty, enclosed = True, actualSampleLines = 1\<rparr>"
proof -
  let ?s = "\<lparr>frequencies = Map.empty, enclosed = True, actualSampleLines = 1\<rparr>"
  have enc: "enclosed ?s" by simp
  have "(0x22 :: byte) \<notin> set [0x2C, LF, 0x3B]" by simp
  with enclosed_bytes_ignored
    [OF enc, of 15 "0x22" "0x61" LF "0x2C" "[0x2C, LF, 0x3B]" "[0x22, 0x2C]"]
  show ?thesis by (simp del: scan.simps)
qed

text \<open>
  C6 (as the code has it). Inside an enclosure, an enclosure character that is followed
  in the same read by another enclosure character is an escaped pair: the body skips
  the second byte and leaves the enclosure state and everything else unchanged, and
  the inner loop goes on behind the pair. Outside an enclosure the first of two
  enclosure characters toggles the state, opening an enclosure, and the second byte is
  not skipped; when no third enclosure character follows, the second one closes the
  enclosure again, so that the inner loop goes on behind the two with its variables
  unchanged.
\<close>

theorem escaped_enclosure_pair:
  "(enclosed s \<longrightarrow>
      body sl e prev e e s = (Skip, s) \<and>
      scan sl e prev (e # e # rest) s = scan sl e e rest s) \<and>
   (\<not> enclosed s \<longrightarrow>
      body sl e prev e e s = (Continue, s\<lparr>enclosed := True\<rparr>)) \<and>
   (\<not> enclosed s \<and> (case rest of [] \<Rightarrow> e \<noteq> 0 | n # _ \<Rightarrow> n \<noteq> e) \<longrightarrow>
      scan sl e prev (e # e # rest) s = scan sl e e rest s)"
  by (cases rest; cases s) (simp_all add: body_def)

theorem escaped_enclosure_pair_witness:
  "body 15 0x22 0x61 0x22 0x22
      \<lparr>frequencies = Map.empty, enclosed = True, actualSampleLines = 1\<rparr> =
     (Skip, \<lparr>frequencies = Map.empty, enclosed = True, actualSampleLines = 1\<rparr>) \<and>
   scan 15 0x22 0x61 [0x22, 0x22, 0x2C]
      \<lparr>frequencies = Map.empty, enclosed = True, actualSampleLines = 1\<rparr> =
   scan 15 0x22 0x22 [0x2C]
      \<lparr>frequencies = Map.empty, enclosed = True, actualSampleLines = 1\<rparr> \<and>
   body 15 0x22 0x61 0x22 0x22
      \<lparr>frequencies = Map.empty, enclosed = False, actualSampleLines = 1\<rparr> =
     (Continue, \<lparr>frequencies = Map.empty, enclosed = True, actualSampleLines = 1\<rparr>) \<and>
   scan 15 0x22 0x61 [0x22, 0x22, 0x2C]
      \<lparr>frequencies = Map.empty, enclosed = False, actualSampleLines = 1\<rparr> =
   scan 15 0x22 0x22 [0x2C]
      \<lparr>frequencies = Map.empty, enclosed = False, actualSampleLines = 1\<rparr>"
  using escaped_enclosure_pair
      [of "\<lparr>frequencies = Map.empty, enclosed = True, actualSampleLines = 1\<rparr>"
          15 "0x22" "0x61" "[0x2C]"]
    escaped_enclosure_pair
      [of "\<lparr>frequencies = Map.empty, enclosed = False, actualSampleLines = 1\<rparr>"
          15 "0x22" "0x61" "[0x2C]"]
  by (simp del: scan.simps)

text \<open>
  C6 as the specification states it fails outside an enclosure: the current byte and the
  next byte are both the enclosure character, yet the body does not skip the second
  byte and it does toggle the enclosure state.
\<close>

theorem escaped_pair_outside_enclosure_counterexample:
  "fst (body sampleLines 0x22 0x2C 0x22 0x22
      \<lparr>frequencies = Map.empty, enclosed = False, actualSampleLines = 1\<rparr>) \<noteq> Skip \<and>
   enclosed (snd (body sampleLines 0x22 0x2C 0x22 0x22
      \<lparr>frequencies = Map.empty, enclosed = False, actualSampleLines = 1\<rparr>)) \<noteq>
   enclosed \<lparr>frequencies = Map.empty, enclosed = False, actualSampleLines = 1\<rparr>"
  by (simp add: body_def)

section \<open>The analyzer: proofs\<close>

subsection \<open>Rounding\<close>

lemma round_even_of_int: "round_even (of_int k) = k"
  by (simp add: round_even_def)

lemma round_even_nonneg: "0 \<le> r \<Longrightarrow> 0 \<le> round_even r"
  by (auto simp: round_even_def Let_def)

lemma round_even_zeroD: "round_even r = 0 \<Longrightarrow> \<bar>r\<bar> \<le> 1 / 2"
  unfolding round_even_def Let_def
  by (auto split: if_splits) linarith+

lemma rnd_zero: "rnd p 0 = 0"
  by (simp add: rnd_def)

lemma rnd_nonneg: "0 \<le> x \<Longrightarrow> 0 \<le> rnd p x"
  by (simp add: rnd_def Let_def round_even_nonneg)

text \<open>Rounding does not turn a non-zero number into zero.\<close>

lemma rnd_eq_zeroD:
  assumes "rnd p x = 0" and "0 < p"
  shows "x = 0"
proof (rule ccontr)
  assume nz: "x \<noteq> 0"
  define u :: real where "u = 2 powr of_int (\<lfloor>log 2 \<bar>x\<bar>\<rfloor> + 1 - int p)"
  have u_pos: "0 < u" by (simp add: u_def)
  from assms(1) nz have "u * of_int (round_even (x / u)) = 0"
    by (simp add: rnd_def Let_def u_def)
  with u_pos have "round_even (x / u) = 0" by simp
  then have small: "\<bar>x / u\<bar> \<le> 1 / 2" by (rule round_even_zeroD)
  have "of_int (\<lfloor>log 2 \<bar>x\<bar>\<rfloor> + 1 - int p) \<le> log 2 \<bar>x\<bar>"
    using assms(2) by linarith
  then have "u \<le> 2 powr log 2 \<bar>x\<bar>"
    unfolding u_def by simp
  also have "\<dots> = \<bar>x\<bar>" using nz by simp
  finally have "u \<le> \<bar>x\<bar>" .
  with u_pos have "1 \<le> \<bar>x\<bar> / u" by simp
  with small u_pos show False by (simp add: abs_div)
qed

lemma rnd_eq_zero_iff: "0 < p \<Longrightarrow> rnd p x = 0 \<longleftrightarrow> x = 0"
  using rnd_eq_zeroD rnd_zero by blast

text \<open>A natural number below \<open>2 ^ p\<close> is a number of precision \<open>p\<close>.\<close>

lemma rnd_of_nat_exact:
  assumes "n < 2 ^ p"
  shows "rnd p (real n) = real n"
proof (cases "n = 0")
  case True
  then show ?thesis by (simp add: rnd_zero)
next
  case False
  define e where "e = \<lfloor>log 2 (real n)\<rfloor> + 1 - int p"
  have "real n < 2 ^ p" using assms
    by (metis of_nat_less_iff of_nat_numeral of_nat_power)
  with False have "log 2 (real n) < real p"
    by (simp add: log_of_power_less)
  then have "e \<le> 0" unfolding e_def by linarith
  then obtain k where k: "e = - int k" by (metis nonpos_int_cases)
  have u: "(2::real) powr of_int e = 1 / 2 ^ k"
    unfolding k by (simp add: powr_minus powr_realpow divide_inverse)
  have "real n / (1 / 2 ^ k) = of_int (int n * 2 ^ k)" by simp
  then have "round_even (real n / (1 / 2 ^ k)) = int n * 2 ^ k"
    by (simp only: round_even_of_int)
  then show ?thesis
    using False u by (simp add: rnd_def Let_def e_def [symmetric])
qed

lemma rnd_of_int_exact:
  assumes "0 \<le> v" and "v < 2 ^ p"
  shows "rnd p (of_int v) = of_int v"
proof -
  from assms(1) obtain n where v: "v = int n" by (metis nonneg_int_cases)
  with assms(2) have "n < 2 ^ p"
    by (metis of_nat_less_iff of_nat_numeral of_nat_power)
  then show ?thesis unfolding v by (simp add: rnd_of_nat_exact)
qed

subsection \<open>The deviation\<close>


lemma fold_total:
  "fold (\<lambda>i total. case f i of Some frequency \<Rightarrow> total + frequency | None \<Rightarrow> total) xs a =
     a + (\<Sum>i\<leftarrow>xs. occurrences f i)"
  by (induction xs arbitrary: a) (auto simp: occurrences_def split: option.splits)

lemma mean_eq:
  "mean f n = fdiv 24 (float32 (\<Sum>i\<leftarrow>[1..n]. occurrences f i)) (float32 n)"
  by (simp add: mean_def fold_total)

lemma rnd_square_not_neg: "\<not> rnd p (y * y) < 0"
  using rnd_nonneg [of "y * y" p] by simp

lemma dev_term_nonneg: "0 \<le> dev_term avg v"
  unfolding dev_term_def by (intro rnd_nonneg real_sqrt_ge_zero) simp

lemma dev_term_zero_iff: "dev_term avg v = 0 \<longleftrightarrow> avg = rnd 24 (of_int v)"
  unfolding dev_term_def by (simp add: rnd_eq_zero_iff)

lemma dev_step:
  "(let frequency = (case f i of Some v \<Rightarrow> float32 v | None \<Rightarrow> Finite 0);
        d = fmul 24 (fsub 24 (Finite avg) frequency) (fsub 24 (Finite avg) frequency)
    in fadd 53 (Finite t) (fsqrt 53 d)) = Finite (rnd 53 (t + dev_term avg (occurrences f i)))"
  by (simp add: Let_def float32_def occurrences_def dev_term_def rnd_zero rnd_square_not_neg
      split: option.splits)

lemma dev_fold:
  assumes "0 \<le> t"
  shows "\<exists>T. fold (\<lambda>i total.
                    let frequency = (case f i of Some v \<Rightarrow> float32 v | None \<Rightarrow> Finite 0);
                        d = fmul 24 (fsub 24 (Finite avg) frequency) (fsub 24 (Finite avg) frequency)
                    in fadd 53 total (fsqrt 53 d)) xs (Finite t) = Finite T \<and> 0 \<le> T \<and>
             (T = 0 \<longleftrightarrow> t = 0 \<and> (\<forall>i \<in> set xs. avg = rnd 24 (of_int (occurrences f i))))"
  using assms
proof (induction xs arbitrary: t)
  case Nil
  then show ?case by simp
next
  case (Cons x xs)
  let ?t' = "rnd 53 (t + dev_term avg (occurrences f x))"
  have nn: "0 \<le> t + dev_term avg (occurrences f x)"
    using Cons.prems dev_term_nonneg [of avg "occurrences f x"] by linarith
  then have t'_nn: "0 \<le> ?t'" by (rule rnd_nonneg)
  have t'_zero: "?t' = 0 \<longleftrightarrow> t = 0 \<and> avg = rnd 24 (of_int (occurrences f x))"
  proof -
    have "?t' = 0 \<longleftrightarrow> t + dev_term avg (occurrences f x) = 0"
      by (simp add: rnd_eq_zero_iff)
    also have "\<dots> \<longleftrightarrow> t = 0 \<and> dev_term avg (occurrences f x) = 0"
      using Cons.prems dev_term_nonneg [of avg "occurrences f x"] by linarith
    finally show ?thesis by (simp add: dev_term_zero_iff)
  qed
  from Cons.IH [OF t'_nn] obtain T where
    T: "fold (\<lambda>i total.
                    let frequency = (case f i of Some v \<Rightarrow> float32 v | None \<Rightarrow> Finite 0);
                        d = fmul 24 (fsub 24 (Finite avg) frequency) (fsub 24 (Finite avg) frequency)
                    in fadd 53 total (fsqrt 53 d)) xs (Finite ?t') = Finite T"
      "0 \<le> T" "T = 0 \<longleftrightarrow> ?t' = 0 \<and> (\<forall>i \<in> set xs. avg = rnd 24 (of_int (occurrences f i)))"
    by blast
  show ?case
    using T t'_zero by (simp only: fold_Cons comp_apply dev_step) auto
qed

lemma float_of_positive:
  "0 < p \<Longrightarrow> 1 \<le> n \<Longrightarrow> rnd p (of_int n) \<noteq> 0"
  using rnd_eq_zeroD [of p "of_int n"] by auto

lemma deviation_zero_iff:
  assumes "1 \<le> n"
  shows "feq (Finite 0) (deviation f n) \<longleftrightarrow>
         (\<forall>i \<in> {1..n}. rnd 24 (rnd 24 (of_int (\<Sum>i\<leftarrow>[1..n]. occurrences f i)) / rnd 24 (of_int n))
             = rnd 24 (of_int (occurrences f i)))"
proof -
  let ?avg = "rnd 24 (rnd 24 (of_int (\<Sum>i\<leftarrow>[1..n]. occurrences f i)) / rnd 24 (of_int n))"
  have m: "mean f n = Finite ?avg"
    using assms by (simp add: mean_eq float32_def float_of_positive)
  from dev_fold [of 0 f ?avg "[1..n]"] obtain T where
    T: "fold (\<lambda>i total.
                    let frequency = (case f i of Some v \<Rightarrow> float32 v | None \<Rightarrow> Finite 0);
                        d = fmul 24 (fsub 24 (Finite ?avg) frequency) (fsub 24 (Finite ?avg) frequency)
                    in fadd 53 total (fsqrt 53 d)) [1..n] (Finite 0) = Finite T"
      "0 \<le> T" "T = 0 \<longleftrightarrow> (\<forall>i \<in> set [1..n]. ?avg = rnd 24 (of_int (occurrences f i)))"
    by auto
  have "deviation f n = Finite (rnd 53 (T / rnd 53 (of_int n)))"
    using assms T(1) by (simp add: deviation_def m float64_def float_of_positive)
  then have "feq (Finite 0) (deviation f n) \<longleftrightarrow> T = 0"
    using assms by (auto simp: rnd_eq_zero_iff float_of_positive dest: sym)
  with T(3) show ?thesis by auto
qed



lemma total_nonneg: "\<forall>i \<in> set xs. 0 \<le> g i \<Longrightarrow> 0 \<le> (\<Sum>i\<leftarrow>xs. (g i :: int))"
  by (induction xs) auto

lemma occurrence_le_total:
  "\<forall>i \<in> set xs. 0 \<le> g i \<Longrightarrow> j \<in> set xs \<Longrightarrow> g j \<le> (\<Sum>i\<leftarrow>xs. (g i :: int))"
proof (induction xs)
  case Nil
  then show ?case by simp
next
  case (Cons x xs)
  have tail: "0 \<le> (\<Sum>i\<leftarrow>xs. g i)" using Cons.prems(1) by (intro total_nonneg) simp
  show ?case
  proof (cases "j = x")
    case True
    with tail show ?thesis by simp
  next
    case False
    with Cons.prems have "j \<in> set xs" by simp
    with Cons.IH Cons.prems(1) have "g j \<le> (\<Sum>i\<leftarrow>xs. g i)" by simp
    moreover have "0 \<le> g x" using Cons.prems(1) by simp
    ultimately show ?thesis by simp
  qed
qed

lemma total_of_constant:
  assumes "\<forall>i \<in> {1..n}. g i = (c::int)" and "1 \<le> n"
  shows "(\<Sum>i\<leftarrow>[1..n]. g i) = n * c"
proof -
  have "map g [1..n] = map (\<lambda>_. c) [1..n]"
    using assms(1) by (intro map_cong) auto
  then have "map g [1..n] = replicate (length [1..n]) c"
    by (simp add: map_replicate_const)
  then have "(\<Sum>i\<leftarrow>[1..n]. g i) = int (length [1..n]) * c"
    by (simp add: sum_list_replicate)
  with assms(2) show ?thesis by simp
qed

lemma deviation_zero_small:
  assumes n: "1 \<le> n"
    and nonneg: "\<forall>i \<in> {1..n}. 0 \<le> occurrences f i"
    and small: "(\<Sum>i\<leftarrow>[1..n]. occurrences f i) < 2 ^ 24"
  shows "feq (Finite 0) (deviation f n) \<longleftrightarrow> (\<forall>i \<in> {1..n}. occurrences f i = occurrences f 1)"
proof -
  let ?S = "\<Sum>i\<leftarrow>[1..n]. occurrences f i"
  let ?avg = "rnd 24 (rnd 24 (of_int ?S) / rnd 24 (of_int n))"
  have exact: "rnd 24 (of_int (occurrences f i)) = of_int (occurrences f i)" if "i \<in> {1..n}" for i
  proof -
    from that nonneg have "0 \<le> occurrences f i" by blast
    moreover have "occurrences f i \<le> ?S"
      using nonneg that by (intro occurrence_le_total) auto
    with small have "occurrences f i < 2 ^ 24" by linarith
    ultimately show ?thesis by (rule rnd_of_int_exact)
  qed
  have S_nonneg: "0 \<le> ?S"
    using nonneg by (intro total_nonneg) auto
  have S_exact: "rnd 24 (of_int ?S) = of_int ?S"
    using S_nonneg small by (rule rnd_of_int_exact)
  have one: "1 \<in> {1..n}" using n by simp
  show ?thesis
  proof
    assume "feq (Finite 0) (deviation f n)"
    then have "\<forall>i \<in> {1..n}. ?avg = rnd 24 (of_int (occurrences f i))"
      using deviation_zero_iff [OF n, of f] by simp
    then have h: "\<forall>i \<in> {1..n}. ?avg = of_int (occurrences f i)"
      using exact by simp
    show "\<forall>i \<in> {1..n}. occurrences f i = occurrences f 1"
    proof
      fix i assume "i \<in> {1..n}"
      with h have "?avg = of_int (occurrences f i)" by blast
      moreover from h one have "?avg = of_int (occurrences f 1)" by blast
      ultimately have "(of_int (occurrences f i) :: real) = of_int (occurrences f 1)"
        by (simp only:)
      then show "occurrences f i = occurrences f 1"
        by (simp only: of_int_eq_iff)
    qed
  next
    assume eq: "\<forall>i \<in> {1..n}. occurrences f i = occurrences f 1"
    let ?c = "occurrences f 1"
    have S: "?S = n * ?c" using eq n by (rule total_of_constant)
    have c_nonneg: "0 \<le> ?c" using nonneg one by blast
    have avg: "?avg = of_int ?c"
    proof (cases "?c = 0")
      case True
      then show ?thesis by (simp add: S rnd_zero)
    next
      case False
      with c_nonneg have c_pos: "1 \<le> ?c" by linarith
      then have "n * 1 \<le> n * ?c" using n by (intro mult_left_mono) auto
      with small S have "n < 2 ^ 24" by simp
      with n have n_exact: "rnd 24 (of_int n) = of_int n"
        by (intro rnd_of_int_exact) auto
      have "of_int ?S / (of_int n :: real) = of_int ?c"
        using n by (simp add: S)
      then show ?thesis
        using S_exact n_exact exact [OF one] by simp
    qed
    have "\<forall>i \<in> {1..n}. ?avg = rnd 24 (of_int (occurrences f i))"
    proof
      fix i assume "i \<in> {1..n}"
      with eq have "occurrences f i = ?c" by blast
      with avg exact [OF one] show "?avg = rnd 24 (of_int (occurrences f i))"
        by simp
    qed
    then show "feq (Finite 0) (deviation f n)"
      using deviation_zero_iff [OF n, of f] by simp
  qed
qed

lemma deviation_no_lines: "\<not> feq (Finite 0) (deviation f 0)"
  by (simp add: deviation_def mean_def float32_def float64_def rnd_zero)

subsection \<open>Counts that float32 does not hold\<close>

lemma upto_from_1: "[1..numeral n] = 1 # [2..numeral n]"
  by (subst upto.simps) simp

lemma floor_log2:
  assumes "2 ^ k \<le> x" and "x < 2 ^ Suc k"
  shows "\<lfloor>log 2 x\<rfloor> = int k"
proof -
  have "0 < (2::real) ^ k" by simp
  with assms(1) have pos: "0 < x" by linarith
  have "(2::real) powr of_int (int k) = 2 ^ k"
    by (simp add: powr_realpow)
  moreover have "(2::real) powr of_int (int k + 1) = 2 ^ Suc k"
    using powr_realpow [of 2 "Suc k"] by (simp add: add.commute)
  ultimately have "2 powr of_int (int k) \<le> x \<and> x < 2 powr of_int (int k + 1)"
    using assms by simp
  with pos show ?thesis
    by (simp add: floor_log_eq_powr_iff)
qed

lemma rnd_eval:
  assumes "2 ^ k \<le> x" and "x < 2 ^ Suc k" and "p \<le> Suc k"
  shows "rnd p x = 2 ^ (Suc k - p) * of_int (round_even (x / 2 ^ (Suc k - p)))"
proof -
  have "0 < (2::real) ^ k" by simp
  with assms(1) have pos: "0 < x" by linarith
  have "\<lfloor>log 2 \<bar>x\<bar>\<rfloor> + 1 - int p = int (Suc k - p)"
    using floor_log2 [OF assms(1,2)] pos assms(3) by simp
  then have "(2::real) powr of_int (\<lfloor>log 2 \<bar>x\<bar>\<rfloor> + 1 - int p) = 2 ^ (Suc k - p)"
    by (simp add: powr_realpow)
  with pos show ?thesis by (simp add: rnd_def Let_def)
qed

lemma rnd_16777217: "rnd 24 16777217 = 16777216"
  using rnd_eval [of 24 16777217 24] by (simp add: round_even_def Let_def)

lemma rnd_33554433: "rnd 24 33554433 = 33554432"
  using rnd_eval [of 25 33554433 24] by (simp add: round_even_def Let_def)

lemma rnd_16777216: "rnd 24 16777216 = 16777216"
  using rnd_eval [of 24 16777216 24] by (simp add: round_even_def Let_def)

text \<open>
  From \<open>2 ^ 24\<close> on \<open>float32\<close> no longer tells neighbouring counts apart: a character
  with 16777216 occurrences on one line and 16777217 on the other passes the test.
\<close>

lemma float32_merges_counts:
  "feq (Finite 0) (deviation [1 \<mapsto> 16777216, 2 \<mapsto> 16777217] 2)"
proof -
  have two: "rnd 24 2 = 2" using rnd_of_nat_exact [of 2 24] by simp
  show ?thesis
    by (subst deviation_zero_iff)
       (auto simp: occurrences_def upto_from_1 rnd_16777217 rnd_33554433 rnd_16777216 two)
qed

subsection \<open>Candidates\<close>


lemma analyze_no_lines: "analyze order ft 0 = []"
  by (auto simp: analyze_def filter_empty_conv deviation_no_lines split: option.splits)

lemma in_analyze_iff:
  "c \<in> set (analyze order ft n) \<longleftrightarrow>
     c \<in> set order \<and> (\<exists>row. ft c = Some row \<and> feq (Finite 0) (deviation row n))"
  by (auto simp: analyze_def split: option.splits)

lemma distinct_analyze: "distinct order \<Longrightarrow> distinct (analyze order ft n)"
  by (simp add: analyze_def)

lemma validDelimiter_iff: "validDelimiter c \<longleftrightarrow> c \<in> {0x2C, 0x7C, 0x09, 0x3B}"
  by (auto simp: validDelimiter_def)

lemma string_of_valid: "validDelimiter c \<Longrightarrow> string_of_byte c = [c]"
  by (auto simp: validDelimiter_iff string_of_byte_def)

lemma DetectDelimiter_alt:
  "DetectDelimiter order reads e =
     map (\<lambda>d. [d]) (filter validDelimiter
       (analyze order (fst (sample reads sampleLines e)) (snd (sample reads sampleLines e) - 1)))"
  by (simp add: DetectDelimiter_def split_beta string_of_valid cong: map_cong)

lemma in_DetectDelimiter_iff:
  "x \<in> set (DetectDelimiter order reads e) \<longleftrightarrow>
     (\<exists>d. x = [d] \<and> validDelimiter d \<and>
        d \<in> set (analyze order (fst (sample reads sampleLines e))
                (snd (sample reads sampleLines e) - 1)))"
  by (auto simp: DetectDelimiter_alt)

lemma occurrences_nonneg: "positive_counts ft \<Longrightarrow> ft c = Some row \<Longrightarrow> 0 \<le> occurrences row i"
  unfolding positive_counts_def occurrences_def
  by (cases "row i") (auto, force)

text \<open>The test of \<open>analyze\<close> in a form that can be computed on a concrete row.\<close>

lemma deviation_zero_eval:
  assumes "1 \<le> n" and "list_all (\<lambda>i. 0 \<le> occurrences f i) [1..n]"
    and "(\<Sum>i\<leftarrow>[1..n]. occurrences f i) < 2 ^ 24"
  shows "feq (Finite 0) (deviation f n) \<longleftrightarrow> list_all (\<lambda>i. occurrences f i = occurrences f 1) [1..n]"
  using deviation_zero_small [of n f] assms by (simp add: list_all_iff)



text \<open>
  On a stream that ends, \<open>DetectDelimiter\<close> returns what it returns on the reads before
  the first error; on a stream whose reads never report an error it does not return.
\<close>

lemma DetectDelimiter_stream_of:
  "DetectDelimiter_stream order (stream_of reads) e = Some (DetectDelimiter order reads e)"
  by (simp add: DetectDelimiter_stream_def DetectDelimiter_def sample_stream_of split_beta)

lemma DetectDelimiter_stream_endless:
  "\<forall>k. reader k \<noteq> None \<Longrightarrow> DetectDelimiter_stream order reader e = None"
  by (simp add: DetectDelimiter_stream_def sample_stream_endless)

lemma DetectDelimiter_stream_is_DetectDelimiter:
  "DetectDelimiter_stream order reader e = Some candidates \<Longrightarrow>
     \<exists>reads. candidates = DetectDelimiter order reads e"
  unfolding DetectDelimiter_stream_def DetectDelimiter_def
  using sample_stream_is_sample [of reader sampleLines e]
  by (cases "sample_stream reader sampleLines e") (auto simp: split_beta)

text \<open>Samples of small streams, computed.\<close>

lemmas sample_eval = sample_def sampleLines_def body_def increment_def Let_def
  createFrequencyTable_def nonDelimiterRegex_MatchString_def


lemma sample_two_lines:
  "sample [[0x61, 0x2C, 0x62, 0x2C, 0x63, 0x2C, 0x64, LF,
            0x61, 0x2C, 0x62, 0x2C, 0x63, 0x2C, 0x64, LF]] sampleLines 0x22 =
     ([0x2C \<mapsto> [1 \<mapsto> 3, 2 \<mapsto> 3]], 3)"
  by (simp add: sample_eval)

lemma sample_one_line:
  "sample [[0x61, 0x2C, 0x62, 0x2C, 0x63, 0x2C, 0x64]] sampleLines 0x22 =
     ([0x2C \<mapsto> [1 \<mapsto> 3]], 1)"
  by (simp add: sample_eval)

lemma sample_two_delimiters:
  "sample [[0x61, 0x2C, 0x62, 0x3B, 0x63, LF, 0x61, 0x2C, 0x62, 0x3B, 0x63, LF]] sampleLines 0x22 =
     ([0x2C \<mapsto> [1 \<mapsto> 1, 2 \<mapsto> 1], 0x3B \<mapsto> [1 \<mapsto> 1, 2 \<mapsto> 1]], 3)"
  by (simp add: sample_eval)

lemma sample_hash_and_comma:
  "sample [[0x61, 0x2C, 0x62, 0x23, 0x63, LF, 0x61, 0x2C, 0x62, 0x23, 0x63, LF]] sampleLines 0x22 =
     ([0x2C \<mapsto> [1 \<mapsto> 1, 2 \<mapsto> 1], 0x23 \<mapsto> [1 \<mapsto> 1, 2 \<mapsto> 1]], 3)"
  by (simp add: sample_eval)

lemma sample_crlf_one_read:
  "sample [[0x61, 0x2C, 0x62, CR, LF, 0x61, 0x2C, 0x62, CR, LF]] sampleLines 0x22 =
     ([0x2C \<mapsto> [1 \<mapsto> 1, 2 \<mapsto> 1]], 3)"
  by (simp add: sample_eval)

lemma sample_crlf_two_reads:
  "sample [[0x61, 0x2C, 0x62, CR], [LF, 0x61, 0x2C, 0x62, CR, LF]] sampleLines 0x22 =
     ([0x2C \<mapsto> [1 \<mapsto> 1, 3 \<mapsto> 1]], 4)"
  by (simp add: sample_eval)

lemma ragged_three_lines: "\<not> feq (Finite 0) (deviation [1 \<mapsto> 1, 3 \<mapsto> 1] 3)"
  by (subst deviation_zero_eval) (simp_all add: occurrences_def upto_from_1)

lemma uniform_two_lines: "feq (Finite 0) (deviation [1 \<mapsto> 1, 2 \<mapsto> 1] 2)"
  by (subst deviation_zero_eval) (simp_all add: occurrences_def upto_from_1)

lemma tab_row: "f c = Some row \<Longrightarrow> tab f c i = occurrences row i"
  by (simp add: tab_def occurrences_def)

lemma tab_recorded: "tab f c i \<noteq> 0 \<Longrightarrow> \<exists>row. f c = Some row"
  by (cases "f c") (simp_all add: tab_def)

text \<open>
  A character with the same positive number of occurrences outside quotes on every
  line of such a stream is a candidate of \<open>analyze\<close>.
\<close>

lemma uniform_lines_candidate:
  assumes e: "e \<noteq> 0" "e \<noteq> LF" "e \<noteq> CR"
    and c: "\<not> nonDelimiterRegex_MatchString c"
    and ne: "ls \<noteq> []"
    and ls: "\<forall>l \<in> set ls. sampled_line e l \<and> count_list (outside e l) c = k"
    and k: "0 < k" "k < 2 ^ 20"
    and reads: "length ls < 14 \<and> concat reads = terminated_lines [LF] ls @ rest \<and>
                  LF \<notin> set (outside e rest) \<and> CR \<notin> set (outside e rest) \<or>
                length ls = 14 \<and> reads = [terminated_lines [LF] ls @ rest]"
    and order: "range_order (fst (sample reads sampleLines e)) order"
  shows "c \<in> set (analyze order (fst (sample reads sampleLines e))
                  (snd (sample reads sampleLines e) - 1))"
proof -
  let ?ft = "fst (sample reads sampleLines e)"
  let ?n = "int (length ls)"
  from sample_of_lines [OF e c ls reads]
  have total: "snd (sample reads sampleLines e) = ?n + 1"
    and tabs: "\<forall>i \<in> {1..?n}. tab ?ft c i = int k" by simp_all
  have n: "1 \<le> ?n" using ne by (cases ls) simp_all
  have le: "?n \<le> 14" using reads by auto
  from n tabs have "tab ?ft c 1 = int k" by simp
  with k(1) have "tab ?ft c 1 \<noteq> 0" by simp
  then obtain row where row: "?ft c = Some row" using tab_recorded by blast
  have occ: "\<forall>i \<in> {1..?n}. occurrences row i = int k"
    using tabs tab_row [of ?ft c row] row by simp
  have "(\<Sum>i\<leftarrow>[1..?n]. occurrences row i) = ?n * int k"
    using occ n by (intro total_of_constant) simp_all
  also have "\<dots> \<le> 14 * int k" using le by (intro mult_right_mono) simp_all
  also have "\<dots> < 14 * 2 ^ 20" using k(2) by simp
  also have "\<dots> < (2 ^ 24 :: int)" by simp
  finally have small: "(\<Sum>i\<leftarrow>[1..?n]. occurrences row i) < 2 ^ 24" .
  have nonneg: "\<forall>i \<in> {1..?n}. 0 \<le> occurrences row i" using occ by simp
  have same: "\<forall>i \<in> {1..?n}. occurrences row i = occurrences row 1"
  proof
    fix i assume "i \<in> {1..?n}"
    with occ have "occurrences row i = int k" by blast
    moreover from occ n have "occurrences row 1 = int k" by simp
    ultimately show "occurrences row i = occurrences row 1" by (simp only:)
  qed
  have "feq (Finite 0) (deviation row ?n)"
    using deviation_zero_small [OF n nonneg small] same by blast
  moreover have "c \<in> set order"
    using order row by (auto simp: range_order_def)
  ultimately show ?thesis
    using row by (simp add: in_analyze_iff total)
qed

lemma not_matched_comma: "\<not> nonDelimiterRegex_MatchString 0x2C"
  by (simp add: nonDelimiterRegex_MatchString_def)

lemma sample_quoted_lines:
  "sample [[0x61, 0x2C, 0x22, 0x78, 0x2C],
           [0x79, 0x22, 0x2C, 0x62, 0x2C, 0x63, LF,
            0x64, 0x2C, 0x65, 0x2C, 0x66, 0x2C, 0x67, LF, 0x68, 0x2C]] sampleLines 0x22 =
     ([0x2C \<mapsto> [1 \<mapsto> 3, 2 \<mapsto> 3, 3 \<mapsto> 1]], 3)"
  by (simp add: sample_eval)

lemma sample_fourteen_lines:
  "sample [terminated_lines [LF] (replicate 14 [0x61, 0x2C, 0x62]) @ [0x2C, 0x2C, LF, 0x2C]]
      sampleLines 0x22 =
     ([0x2C \<mapsto> [1 \<mapsto> 1, 2 \<mapsto> 1, 3 \<mapsto> 1, 4 \<mapsto> 1, 5 \<mapsto> 1, 6 \<mapsto> 1, 7 \<mapsto> 1,
                8 \<mapsto> 1, 9 \<mapsto> 1, 10 \<mapsto> 1, 11 \<mapsto> 1, 12 \<mapsto> 1, 13 \<mapsto> 1, 14 \<mapsto> 1]], 15)"
  by (simp add: fourteen terminated_lines_def sample_eval)

text \<open>
  A stream of 200 equal lines \<open>aa,b,c,d\<close>, read through the buffered reader. The
  target is reached inside the first read of 1024 bytes, the rest of that read is
  not scanned, and the second read begins inside a line: its first line break is counted
  as line 15, on which no comma was seen, and the sampling stops at 16. The comma has
  three occurrences on each of the lines 1 to 14 and none on line 15, so it is no
  candidate although every line of the stream holds three commas.
\<close>

lemma reads_of_two_hundred_lines:
  "buffered_reads (concat (replicate 200 [0x61, 0x61, 0x2C, 0x62, 0x2C, 0x63, 0x2C, 0x64, LF])) =
     [concat (replicate 14 [0x61, 0x61, 0x2C, 0x62, 0x2C, 0x63, 0x2C, 0x64, LF]) @
        concat (replicate 99 [0x61, 0x61, 0x2C, 0x62, 0x2C, 0x63, 0x2C, 0x64, LF]) @
        [0x61, 0x61, 0x2C, 0x62, 0x2C, 0x63, 0x2C],
      [0x64, LF] @ concat (replicate 86 [0x61, 0x61, 0x2C, 0x62, 0x2C, 0x63, 0x2C, 0x64, LF])]"
proof -
  let ?l = "[0x61, 0x61, 0x2C, 0x62, 0x2C, 0x63, 0x2C, 0x64, LF :: byte]"
  let ?A = "concat (replicate 14 ?l) @ concat (replicate 99 ?l) @ [0x61, 0x61, 0x2C, 0x62, 0x2C, 0x63, 0x2C]"
  let ?B = "[0x64, LF] @ concat (replicate 86 ?l)"
  have "replicate 200 ?l = replicate (14 + (99 + (Suc 0 + 86))) ?l" by simp
  also have "\<dots> = replicate 14 ?l @ replicate 99 ?l @ [?l] @ replicate 86 ?l"
    by (simp only: replicate_add replicate.simps append_Cons append_Nil)
  finally have "replicate 200 ?l = replicate 14 ?l @ replicate 99 ?l @ [?l] @ replicate 86 ?l" .
  then have content: "concat (replicate 200 ?l) = ?A @ ?B" by simp
  have lenA: "length ?A = 1024" by (simp add: length_concat sum_list_replicate)
  have lenB: "length ?B = 776" by (simp add: length_concat sum_list_replicate)
  have "chop 4096 (?A @ ?B) = [?A @ ?B]"
    using lenA lenB by (intro chop_short) (simp_all del: append_assoc)
  moreover have "chop 1024 (?A @ ?B) = ?A # chop 1024 ?B"
    using lenA by (intro chop_append) simp_all
  moreover have "chop 1024 ?B = [?B]"
    using lenB by (intro chop_short) simp_all
  ultimately show ?thesis
    unfolding content by (simp add: buffered_reads_def)
qed

lemma sample_two_hundred_lines:
  "sample (buffered_reads
      (concat (replicate 200 [0x61, 0x61, 0x2C, 0x62, 0x2C, 0x63, 0x2C, 0x64, LF])))
      sampleLines 0x22 =
     ([0x2C \<mapsto> [1 \<mapsto> 3, 2 \<mapsto> 3, 3 \<mapsto> 3, 4 \<mapsto> 3, 5 \<mapsto> 3, 6 \<mapsto> 3, 7 \<mapsto> 3,
                8 \<mapsto> 3, 9 \<mapsto> 3, 10 \<mapsto> 3, 11 \<mapsto> 3, 12 \<mapsto> 3, 13 \<mapsto> 3, 14 \<mapsto> 3]], 16)"
  unfolding reads_of_two_hundred_lines
  by (simp add: fourteen sample_def sampleLines_def scan_Cons body_def increment_def Let_def
      createFrequencyTable_def nonDelimiterRegex_MatchString_def)

lemma ragged_fifteen_lines:
  "\<not> feq (Finite 0) (deviation [1 \<mapsto> 3, 2 \<mapsto> 3, 3 \<mapsto> 3, 4 \<mapsto> 3, 5 \<mapsto> 3, 6 \<mapsto> 3, 7 \<mapsto> 3,
                8 \<mapsto> 3, 9 \<mapsto> 3, 10 \<mapsto> 3, 11 \<mapsto> 3, 12 \<mapsto> 3, 13 \<mapsto> 3, 14 \<mapsto> 3] 15)"
  by (subst deviation_zero_eval) (simp_all add: occurrences_def upto_from_1)

lemma uniform_lines_beyond_target:
  "DetectDelimiter [0x2C] (buffered_reads
      (concat (replicate 200 [0x61, 0x61, 0x2C, 0x62, 0x2C, 0x63, 0x2C, 0x64, LF]))) 0x22 = []"
  by (simp add: DetectDelimiter_def sample_two_hundred_lines analyze_def ragged_fifteen_lines)

subsection \<open>Claims about the delimiter detector\<close>

text \<open>
  C1 (as the code has it). Let a stream consist of lines that end in a linefeed, each
  with its quoted parts closed and without a line break outside quotes, and possibly an
  unterminated rest; let the enclosure byte be neither the zero byte nor a linefeed nor
  a carriage-return. If every line holds the same positive number of commas outside
  quotes (three, say; fewer than \<open>2 ^ 20\<close>), and either there are fewer than 14 lines, so
  that the target is not reached, however the stream is cut into reads, or these are the
  first 14 lines of a stream that arrives in one read, where the sampling stops at the
  target, then \<open>DetectDelimiter\<close> returns \<open>","\<close> among its candidates. More generally,
  when the sampler has counted at least one line break, so that the effective line
  count \<open>totalLines - 1\<close> is at least one, and a recorded character has fewer than
  \<open>2 ^ 24\<close> recorded occurrences on the lines 1 to \<open>totalLines - 1\<close> in total, so
  that \<open>float32\<close> holds its counts exactly, then the character is a candidate of
  \<open>analyze\<close> exactly when its recorded number of occurrences, a missing line counting
  as zero, is the same on all of these lines. Nothing is said here of a stream on which
  the target is reached before the last read; see C4.
\<close>

theorem uniform_count_is_candidate:
  "(e \<notin> {0, LF, CR} \<and> ls \<noteq> [] \<and>
    (\<forall>l \<in> set ls. sampled_line e l \<and> count_list (outside e l) 0x2C = k) \<and>
    0 < k \<and> k < 2 ^ 20 \<and>
    (length ls < 14 \<and> concat reads = terminated_lines [LF] ls @ rest \<and>
       LF \<notin> set (outside e rest) \<and> CR \<notin> set (outside e rest) \<or>
     length ls = 14 \<and> reads = [terminated_lines [LF] ls @ rest]) \<and>
    range_order (fst (sample reads sampleLines e)) order \<longrightarrow>
      [0x2C] \<in> set (DetectDelimiter order reads e)) \<and>
   (sample reads' sampleLines e' = (ft, totalLines) \<and> range_order ft order' \<and>
    2 \<le> totalLines \<and> ft c = Some row \<and>
    (\<Sum>i\<leftarrow>[1..totalLines - 1]. occurrences row i) < 2 ^ 24 \<longrightarrow>
      (c \<in> set (analyze order' ft (totalLines - 1)) \<longleftrightarrow>
         (\<forall>i \<in> {1..totalLines - 1}. occurrences row i = occurrences row 1)))"
proof (intro conjI impI)
  assume h: "e \<notin> {0, LF, CR} \<and> ls \<noteq> [] \<and>
    (\<forall>l \<in> set ls. sampled_line e l \<and> count_list (outside e l) 0x2C = k) \<and>
    0 < k \<and> k < 2 ^ 20 \<and>
    (length ls < 14 \<and> concat reads = terminated_lines [LF] ls @ rest \<and>
       LF \<notin> set (outside e rest) \<and> CR \<notin> set (outside e rest) \<or>
     length ls = 14 \<and> reads = [terminated_lines [LF] ls @ rest]) \<and>
    range_order (fst (sample reads sampleLines e)) order"
  then have e: "e \<noteq> 0" "e \<noteq> LF" "e \<noteq> CR" by simp_all
  from h have "0x2C \<in> set (analyze order (fst (sample reads sampleLines e))
                  (snd (sample reads sampleLines e) - 1))"
    by (intro uniform_lines_candidate [OF e not_matched_comma, where ls = ls and k = k and rest = rest])
       blast+
  then show "[0x2C] \<in> set (DetectDelimiter order reads e)"
    by (auto simp: in_DetectDelimiter_iff validDelimiter_iff)
next
  assume h: "sample reads' sampleLines e' = (ft, totalLines) \<and> range_order ft order' \<and>
    2 \<le> totalLines \<and> ft c = Some row \<and>
    (\<Sum>i\<leftarrow>[1..totalLines - 1]. occurrences row i) < 2 ^ 24"
  have "positive_counts ft"
    using positive_counts_sample [of reads' sampleLines e'] h by simp
  then have nonneg: "\<forall>i \<in> {1..totalLines - 1}. 0 \<le> occurrences row i"
    using h by (blast intro: occurrences_nonneg)
  have n: "1 \<le> totalLines - 1" using h by simp
  have small: "(\<Sum>i\<leftarrow>[1..totalLines - 1]. occurrences row i) < 2 ^ 24" using h by blast
  have test: "feq (Finite 0) (deviation row (totalLines - 1)) \<longleftrightarrow>
      (\<forall>i \<in> {1..totalLines - 1}. occurrences row i = occurrences row 1)"
    using n nonneg small by (rule deviation_zero_small)
  have "c \<in> set order'"
    using h by (auto simp: range_order_def)
  then show "c \<in> set (analyze order' ft (totalLines - 1)) \<longleftrightarrow>
      (\<forall>i \<in> {1..totalLines - 1}. occurrences row i = occurrences row 1)"
    using h test by (simp add: in_analyze_iff)
qed

theorem uniform_count_is_candidate_witness:
  "[0x2C] \<in> set (DetectDelimiter [0x2C]
      [[0x61, 0x2C, 0x22, 0x78, 0x2C],
       [0x79, 0x22, 0x2C, 0x62, 0x2C, 0x63, LF,
        0x64, 0x2C, 0x65, 0x2C, 0x66, 0x2C, 0x67, LF, 0x68, 0x2C]] 0x22) \<and>
   [0x2C] \<in> set (DetectDelimiter [0x2C]
      [terminated_lines [LF] (replicate 14 [0x61, 0x2C, 0x62]) @ [0x2C, 0x2C, LF, 0x2C]] 0x22) \<and>
   0x2C \<in> set (analyze [0x2C] [0x2C \<mapsto> [1 \<mapsto> 3, 2 \<mapsto> 3]] 2)"
proof -
  let ?l1 = "[0x61, 0x2C, 0x22, 0x78, 0x2C, 0x79, 0x22, 0x2C, 0x62, 0x2C, 0x63 :: byte]"
  let ?l2 = "[0x64, 0x2C, 0x65, 0x2C, 0x66, 0x2C, 0x67 :: byte]"
  let ?rest = "[0x68, 0x2C :: byte]"
  let ?reads = "[[0x61, 0x2C, 0x22, 0x78, 0x2C],
       [0x79, 0x22, 0x2C, 0x62, 0x2C, 0x63, LF,
        0x64, 0x2C, 0x65, 0x2C, 0x66, 0x2C, 0x67, LF, 0x68, 0x2C :: byte]]"
  let ?ls = "replicate 14 [0x61, 0x2C, 0x62 :: byte]"
  let ?more = "[0x2C, 0x2C, LF, 0x2C :: byte]"
  have lines: "\<forall>l \<in> set [?l1, ?l2]. sampled_line 0x22 l \<and> count_list (outside 0x22 l) 0x2C = 3"
    by (simp add: sampled_line_def outside_def)
  have reads: "length [?l1, ?l2] < 14 \<and> concat ?reads = terminated_lines [LF] [?l1, ?l2] @ ?rest \<and>
       LF \<notin> set (outside 0x22 ?rest) \<and> CR \<notin> set (outside 0x22 ?rest)"
    by (simp add: terminated_lines_def outside_def)
  have order: "range_order (fst (sample ?reads sampleLines 0x22)) [0x2C]"
    by (simp add: sample_quoted_lines range_order_def)
  have few_lines: "(0x22 :: byte) \<notin> {0, LF, CR} \<and> [?l1, ?l2] \<noteq> [] \<and>
    (\<forall>l \<in> set [?l1, ?l2]. sampled_line 0x22 l \<and> count_list (outside 0x22 l) 0x2C = 3) \<and>
    0 < (3::nat) \<and> (3::nat) < 2 ^ 20 \<and>
    (length [?l1, ?l2] < 14 \<and> concat ?reads = terminated_lines [LF] [?l1, ?l2] @ ?rest \<and>
       LF \<notin> set (outside 0x22 ?rest) \<and> CR \<notin> set (outside 0x22 ?rest) \<or>
     length [?l1, ?l2] = 14 \<and> ?reads = [terminated_lines [LF] [?l1, ?l2] @ ?rest]) \<and>
    range_order (fst (sample ?reads sampleLines 0x22)) [0x2C]"
    using lines reads order by simp
  have one_read: "(0x22 :: byte) \<notin> {0, LF, CR} \<and> ?ls \<noteq> [] \<and>
    (\<forall>l \<in> set ?ls. sampled_line 0x22 l \<and> count_list (outside 0x22 l) 0x2C = 1) \<and>
    0 < (1::nat) \<and> (1::nat) < 2 ^ 20 \<and>
    (length ?ls < 14 \<and> concat [terminated_lines [LF] ?ls @ ?more] = terminated_lines [LF] ?ls @ ?more \<and>
       LF \<notin> set (outside 0x22 ?more) \<and> CR \<notin> set (outside 0x22 ?more) \<or>
     length ?ls = 14 \<and> [terminated_lines [LF] ?ls @ ?more] = [terminated_lines [LF] ?ls @ ?more]) \<and>
    range_order (fst (sample [terminated_lines [LF] ?ls @ ?more] sampleLines 0x22)) [0x2C]"
    by (simp add: sample_fourteen_lines sampled_line_def outside_def range_order_def)
  have total: "(\<Sum>i\<leftarrow>[1..3 - 1]. occurrences [1 \<mapsto> 3, 2 \<mapsto> 3] i) < 2 ^ 24"
    by (simp add: occurrences_def upto_from_1)
  have table: "sample [[0x61, 0x2C, 0x62, 0x2C, 0x63, 0x2C, 0x64, LF,
            0x61, 0x2C, 0x62, 0x2C, 0x63, 0x2C, 0x64, LF]] sampleLines 0x22 =
       ([0x2C \<mapsto> [1 \<mapsto> 3, 2 \<mapsto> 3]], 3) \<and>
     range_order [0x2C \<mapsto> [1 \<mapsto> 3, 2 \<mapsto> 3]] [0x2C] \<and> (2::int) \<le> 3 \<and>
     [0x2C \<mapsto> [1 \<mapsto> 3, 2 \<mapsto> 3]] (0x2C :: byte) = Some [1 \<mapsto> 3, 2 \<mapsto> (3::int)] \<and>
     (\<Sum>i\<leftarrow>[1..3 - 1]. occurrences [1 \<mapsto> 3, 2 \<mapsto> 3] i) < 2 ^ 24"
    using total by (simp add: sample_two_lines range_order_def)
  have uniform: "\<forall>i \<in> {1..3 - 1}.
      occurrences [1 \<mapsto> 3, 2 \<mapsto> 3] i = occurrences [1 \<mapsto> 3, 2 \<mapsto> 3] 1"
    by (auto simp: occurrences_def)
  from uniform_count_is_candidate
    [of "0x22" "[?l1, ?l2]" 3 ?reads ?rest "[0x2C]"
        "[[0x61, 0x2C, 0x62, 0x2C, 0x63, 0x2C, 0x64, LF,
            0x61, 0x2C, 0x62, 0x2C, 0x63, 0x2C, 0x64, LF]]" "0x22"
        "[0x2C \<mapsto> [1 \<mapsto> 3, 2 \<mapsto> 3]]" 3 "[0x2C]" "0x2C" "[1 \<mapsto> 3, 2 \<mapsto> 3]"]
    few_lines table uniform
  have first: "[0x2C] \<in> set (DetectDelimiter [0x2C] ?reads 0x22) \<and>
        0x2C \<in> set (analyze [0x2C] [0x2C \<mapsto> [1 \<mapsto> 3, 2 \<mapsto> 3]] (3 - 1))"
    by blast
  from uniform_count_is_candidate
    [where e = "0x22" and ls = ?ls and k = 1 and rest = ?more and order = "[0x2C]"
       and reads = "[terminated_lines [LF] ?ls @ ?more]"]
    one_read
  have "[0x2C] \<in> set (DetectDelimiter [0x2C] [terminated_lines [LF] ?ls @ ?more] 0x22)"
    by blast
  with first show ?thesis by simp
qed

text \<open>
  C1 as the specification states it fails on a stream without a line break: the only
  sampled line of \<open>a,b,c,d\<close> holds exactly three commas outside quotes, the comma is
  recorded with three occurrences on line 1, yet the effective line count is zero and
  \<open>DetectDelimiter\<close> returns no candidate.
\<close>

theorem single_line_counterexample:
  "sample [[0x61, 0x2C, 0x62, 0x2C, 0x63, 0x2C, 0x64]] sampleLines 0x22 =
     ([0x2C \<mapsto> [1 \<mapsto> 3]], 1) \<and>
   range_order [0x2C \<mapsto> [1 \<mapsto> 3]] [0x2C] \<and>
   DetectDelimiter [0x2C] [[0x61, 0x2C, 0x62, 0x2C, 0x63, 0x2C, 0x64]] 0x22 = []"
  by (simp add: sample_one_line DetectDelimiter_def analyze_no_lines range_order_def)



text \<open>
  C3. Every string that \<open>DetectDelimiter\<close> returns is one of \<open>","\<close>, \<open>"|"\<close>, the
  horizontal tab and \<open>";"\<close>, whatever the reads, the enclosure byte and the order of
  the visit of the table, and so on every stream on which it returns; a character
  outside the allow-list is never returned, also when it passes the test of \<open>analyze\<close>.
\<close>

theorem DetectDelimiter_allow_list:
  "(\<forall>x \<in> set (DetectDelimiter order reads e). x \<in> {[0x2C], [0x7C], [0x09], [0x3B]}) \<and>
   (DetectDelimiter_stream order reader e = Some candidates \<longrightarrow>
      (\<forall>x \<in> set candidates. x \<in> {[0x2C], [0x7C], [0x09], [0x3B]})) \<and>
   (\<not> validDelimiter d \<longrightarrow> string_of_byte d \<notin> set (DetectDelimiter order reads e))"
proof (intro conjI)
  have allowed: "\<forall>x \<in> set (DetectDelimiter order reads e). x \<in> {[0x2C], [0x7C], [0x09], [0x3B]}"
    for reads
    by (auto simp: in_DetectDelimiter_iff validDelimiter_iff)
  show "DetectDelimiter_stream order reader e = Some candidates \<longrightarrow>
      (\<forall>x \<in> set candidates. x \<in> {[0x2C], [0x7C], [0x09], [0x3B]})"
  proof
    assume "DetectDelimiter_stream order reader e = Some candidates"
    then obtain reads' where "candidates = DetectDelimiter order reads' e"
      using DetectDelimiter_stream_is_DetectDelimiter by blast
    with allowed [of reads'] show "\<forall>x \<in> set candidates. x \<in> {[0x2C], [0x7C], [0x09], [0x3B]}"
      by simp
  qed
  show "\<forall>x \<in> set (DetectDelimiter order reads e). x \<in> {[0x2C], [0x7C], [0x09], [0x3B]}"
    by (auto simp: in_DetectDelimiter_iff validDelimiter_iff)
next
  show "\<not> validDelimiter d \<longrightarrow> string_of_byte d \<notin> set (DetectDelimiter order reads e)"
  proof (intro impI notI)
    assume invalid: "\<not> validDelimiter d"
      and "string_of_byte d \<in> set (DetectDelimiter order reads e)"
    then obtain d' where d': "string_of_byte d = [d']" "validDelimiter d'"
      by (auto simp: in_DetectDelimiter_iff)
    then have "d = d'"
      by (auto simp: string_of_byte_def split: if_splits)
    with invalid d'(2) show False by simp
  qed
qed

theorem DetectDelimiter_allow_list_witness:
  "DetectDelimiter [0x23, 0x2C]
      [[0x61, 0x2C, 0x62, 0x23, 0x63, LF, 0x61, 0x2C, 0x62, 0x23, 0x63, LF]] 0x22 = [[0x2C]] \<and>
   DetectDelimiter_stream [0x23, 0x2C]
      (stream_of [[0x61, 0x2C, 0x62, 0x23, 0x63, LF, 0x61, 0x2C, 0x62, 0x23, 0x63, LF]]) 0x22 =
     Some [[0x2C]] \<and>
   0x23 \<in> set (analyze [0x23, 0x2C] [0x2C \<mapsto> [1 \<mapsto> 1, 2 \<mapsto> 1], 0x23 \<mapsto> [1 \<mapsto> 1, 2 \<mapsto> 1]] 2) \<and>
   [0x23] \<notin> set (DetectDelimiter [0x23, 0x2C]
      [[0x61, 0x2C, 0x62, 0x23, 0x63, LF, 0x61, 0x2C, 0x62, 0x23, 0x63, LF]] 0x22)"
proof -
  have "\<not> validDelimiter 0x23" by (simp add: validDelimiter_iff)
  with DetectDelimiter_allow_list [where order = "[0x23, 0x2C]" and e = "0x22" and d = "0x23"
      and reads = "[[0x61, 0x2C, 0x62, 0x23, 0x63, LF, 0x61, 0x2C, 0x62, 0x23, 0x63, LF]]"]
  have "string_of_byte 0x23 \<notin> set (DetectDelimiter [0x23, 0x2C]
      [[0x61, 0x2C, 0x62, 0x23, 0x63, LF, 0x61, 0x2C, 0x62, 0x23, 0x63, LF]] 0x22)"
    by blast
  then show ?thesis
    by (simp add: string_of_byte_def DetectDelimiter_stream_of DetectDelimiter_def
        sample_hash_and_comma analyze_def uniform_two_lines validDelimiter_iff)
qed

text \<open>
  C7 (as the code has it). Two calls on streams that deliver the same reads, with the
  same enclosure byte, return the same candidates, each of them once, and so equally
  many; the order of the candidates is that of the visit of the frequency table, which
  Go does not fix.
\<close>

theorem DetectDelimiter_same_candidates:
  assumes "range_order (fst (sample reads sampleLines e)) order1"
    and "range_order (fst (sample reads sampleLines e)) order2"
  shows "set (DetectDelimiter order1 reads e) = set (DetectDelimiter order2 reads e) \<and>
         distinct (DetectDelimiter order1 reads e) \<and>
         distinct (DetectDelimiter order2 reads e) \<and>
         length (DetectDelimiter order1 reads e) = length (DetectDelimiter order2 reads e)"
proof -
  let ?ft = "fst (sample reads sampleLines e)"
  let ?n = "snd (sample reads sampleLines e) - 1"
  from assms have orders: "set order1 = set order2" "distinct order1" "distinct order2"
    by (simp_all add: range_order_def)
  have same: "set (DetectDelimiter order1 reads e) = set (DetectDelimiter order2 reads e)"
    using orders(1) by (auto simp: in_DetectDelimiter_iff in_analyze_iff)
  have inj: "inj_on (\<lambda>d :: byte. [d]) A" for A by (simp add: inj_on_def)
  have d1: "distinct (DetectDelimiter order1 reads e)"
    using orders(2) by (simp add: DetectDelimiter_alt distinct_map inj distinct_analyze)
  have d2: "distinct (DetectDelimiter order2 reads e)"
    using orders(3) by (simp add: DetectDelimiter_alt distinct_map inj distinct_analyze)
  from same d1 d2 have "length (DetectDelimiter order1 reads e) = length (DetectDelimiter order2 reads e)"
    by (metis distinct_card)
  with same d1 d2 show ?thesis by blast
qed

theorem DetectDelimiter_same_candidates_witness:
  "set (DetectDelimiter [0x2C, 0x3B]
      [[0x61, 0x2C, 0x62, 0x3B, 0x63, LF, 0x61, 0x2C, 0x62, 0x3B, 0x63, LF]] 0x22) =
   set (DetectDelimiter [0x3B, 0x2C]
      [[0x61, 0x2C, 0x62, 0x3B, 0x63, LF, 0x61, 0x2C, 0x62, 0x3B, 0x63, LF]] 0x22) \<and>
   length (DetectDelimiter [0x2C, 0x3B]
      [[0x61, 0x2C, 0x62, 0x3B, 0x63, LF, 0x61, 0x2C, 0x62, 0x3B, 0x63, LF]] 0x22) =
   length (DetectDelimiter [0x3B, 0x2C]
      [[0x61, 0x2C, 0x62, 0x3B, 0x63, LF, 0x61, 0x2C, 0x62, 0x3B, 0x63, LF]] 0x22)"
proof -
  let ?reads = "[[0x61, 0x2C, 0x62, 0x3B, 0x63, LF, 0x61, 0x2C, 0x62, 0x3B, 0x63, LF :: byte]]"
  have "range_order (fst (sample ?reads sampleLines 0x22)) [0x2C, 0x3B]"
    by (auto simp: sample_two_delimiters range_order_def)
  moreover have "range_order (fst (sample ?reads sampleLines 0x22)) [0x3B, 0x2C]"
    by (auto simp: sample_two_delimiters range_order_def)
  ultimately show ?thesis
    using DetectDelimiter_same_candidates [of ?reads "0x22" "[0x2C, 0x3B]" "[0x3B, 0x2C]"]
    by blast
qed

text \<open>
  C7 as the specification states it fails: on the stream \<open>a,b;c\<close>, \<open>a,b;c\<close> of two lines
  the table has the keys \<open>","\<close> and \<open>";"\<close>; both orders of visiting them are orders of
  \<open>range\<close>, and the two calls return the two candidates in different orders. The
  reads matter as well: the same ten bytes \<open>a,b\<close>, \<open>a,b\<close> with carriage-return and
  linefeed after each line yield the comma when they arrive in one read, and nothing
  when a read ends between a carriage-return and its linefeed, which then counts as a
  line break of its own.
\<close>

theorem DetectDelimiter_order_counterexample:
  "range_order (fst (sample
      [[0x61, 0x2C, 0x62, 0x3B, 0x63, LF, 0x61, 0x2C, 0x62, 0x3B, 0x63, LF]] sampleLines 0x22))
      [0x2C, 0x3B] \<and>
   range_order (fst (sample
      [[0x61, 0x2C, 0x62, 0x3B, 0x63, LF, 0x61, 0x2C, 0x62, 0x3B, 0x63, LF]] sampleLines 0x22))
      [0x3B, 0x2C] \<and>
   DetectDelimiter [0x2C, 0x3B]
      [[0x61, 0x2C, 0x62, 0x3B, 0x63, LF, 0x61, 0x2C, 0x62, 0x3B, 0x63, LF]] 0x22 =
     [[0x2C], [0x3B]] \<and>
   DetectDelimiter [0x3B, 0x2C]
      [[0x61, 0x2C, 0x62, 0x3B, 0x63, LF, 0x61, 0x2C, 0x62, 0x3B, 0x63, LF]] 0x22 =
     [[0x3B], [0x2C]] \<and>
   DetectDelimiter [0x2C] [[0x61, 0x2C, 0x62, CR, LF, 0x61, 0x2C, 0x62, CR, LF]] 0x22 =
     [[0x2C]] \<and>
   DetectDelimiter [0x2C] [[0x61, 0x2C, 0x62, CR], [LF, 0x61, 0x2C, 0x62, CR, LF]] 0x22 = []"
proof -
  let ?reads = "[[0x61, 0x2C, 0x62, 0x3B, 0x63, LF, 0x61, 0x2C, 0x62, 0x3B, 0x63, LF :: byte]]"
  have "range_order (fst (sample ?reads sampleLines 0x22)) [0x2C, 0x3B]"
    by (auto simp: sample_two_delimiters range_order_def)
  moreover have "range_order (fst (sample ?reads sampleLines 0x22)) [0x3B, 0x2C]"
    by (auto simp: sample_two_delimiters range_order_def)
  moreover have "DetectDelimiter [0x2C, 0x3B] ?reads 0x22 = [[0x2C], [0x3B]]"
    by (simp add: string_of_byte_def DetectDelimiter_def sample_two_delimiters analyze_def
        uniform_two_lines validDelimiter_iff)
  moreover have "DetectDelimiter [0x3B, 0x2C] ?reads 0x22 = [[0x3B], [0x2C]]"
    by (simp add: string_of_byte_def DetectDelimiter_def sample_two_delimiters analyze_def
        uniform_two_lines validDelimiter_iff)
  moreover have "DetectDelimiter [0x2C]
      [[0x61, 0x2C, 0x62, CR, LF, 0x61, 0x2C, 0x62, CR, LF]] 0x22 = [[0x2C]]"
    by (simp add: string_of_byte_def DetectDelimiter_def sample_crlf_one_read analyze_def
        uniform_two_lines validDelimiter_iff)
  moreover have "DetectDelimiter [0x2C]
      [[0x61, 0x2C, 0x62, CR], [LF, 0x61, 0x2C, 0x62, CR, LF]] 0x22 = []"
    by (simp add: DetectDelimiter_def sample_crlf_two_reads analyze_def ragged_three_lines)
  ultimately show ?thesis by blast
qed

text \<open>
  C10. With an effective line count of zero \<open>analyze\<close> returns no candidate. When the
  sampler has counted no line break, its line count is 1 and \<open>DetectDelimiter\<close> returns
  the empty sequence; that is so for every stream that ends and holds no linefeed and
  no carriage-return, a single line with no terminator among them, and for the empty
  stream.
\<close>

theorem no_line_break_no_candidate:
  "analyze order ft 0 = [] \<and>
   (snd (sample reads sampleLines e) = 1 \<longrightarrow> DetectDelimiter order reads e = []) \<and>
   ((\<forall>buf \<in> set reads. LF \<notin> set buf \<and> CR \<notin> set buf) \<longrightarrow>
      snd (sample reads sampleLines e) = 1 \<and> DetectDelimiter order reads e = [] \<and>
      DetectDelimiter_stream order (stream_of reads) e = Some []) \<and>
   snd (sample [] sampleLines e) = 1 \<and> DetectDelimiter order [] e = [] \<and>
   DetectDelimiter_stream order (stream_of []) e = Some []"
proof -
  have one: "DetectDelimiter order reads e = []" if "snd (sample reads sampleLines e) = 1" for reads
    using that by (simp add: DetectDelimiter_alt analyze_no_lines)
  have lines: "snd (sample reads sampleLines e) = 1"
    if "\<forall>buf \<in> set reads. LF \<notin> set buf \<and> CR \<notin> set buf" for reads
    using read_loop_no_line_break [OF that] by (simp add: sample_def Let_def)
  have "snd (sample [] sampleLines e) = 1" by (simp add: lines)
  with one lines show ?thesis by (simp add: analyze_no_lines DetectDelimiter_stream_of)
qed

theorem no_line_break_no_candidate_witness:
  "snd (sample [[0x61, 0x2C, 0x62, 0x2C, 0x63, 0x2C, 0x64]] sampleLines 0x22) = 1 \<and>
   DetectDelimiter [0x2C] [[0x61, 0x2C, 0x62, 0x2C, 0x63, 0x2C, 0x64]] 0x22 = [] \<and>
   snd (sample [[0x22, 0x61, LF, 0x62, 0x22, 0x2C, 0x63]] sampleLines 0x22) = 1 \<and>
   DetectDelimiter [0x2C] [[0x22, 0x61, LF, 0x62, 0x22, 0x2C, 0x63]] 0x22 = [] \<and>
   DetectDelimiter [] [] 0x22 = [] \<and>
   DetectDelimiter_stream [] (stream_of []) 0x22 = Some []"
proof -
  have a: "\<forall>buf \<in> set [[0x61, 0x2C, 0x62, 0x2C, 0x63, 0x2C, 0x64 :: byte]]. LF \<notin> set buf \<and> CR \<notin> set buf"
    by simp
  have b: "snd (sample [[0x22, 0x61, LF, 0x62, 0x22, 0x2C, 0x63]] sampleLines 0x22) = 1"
    by (simp add: sample_eval)
  from a b
    no_line_break_no_candidate [of "[0x2C]" Map.empty "[[0x61, 0x2C, 0x62, 0x2C, 0x63, 0x2C, 0x64]]" "0x22"]
    no_line_break_no_candidate [of "[0x2C]" Map.empty "[[0x22, 0x61, LF, 0x62, 0x22, 0x2C, 0x63]]" "0x22"]
    no_line_break_no_candidate [of "[]" Map.empty "[]" "0x22"]
  show ?thesis by blast
qed

end
